theory Spec2Isabelle
  imports Complex_Main "HOL-Library.Sublist"
begin

section \<open>JavaScript strings and values\<close>

text \<open>
  A JavaScript string is a sequence of UTF-16 code units and \<open>s.length\<close> counts code
  units, so a string is modelled as the list of its code units. \<open>str\<close> embeds an ASCII
  literal; the horizontal ellipsis used by the truncation markers is the single code unit
  U+2026.
\<close>

type_synonym jsstring = "nat list"

definition str :: "string \<Rightarrow> jsstring" where
  "str s = map of_char s"

definition ellipsis :: nat where
  "ellipsis = 8230"

text \<open>The decimal rendering of a non-negative integer inside a template literal.\<close>

fun digits :: "nat \<Rightarrow> jsstring" where
  "digits n = (if n < 10 then [48 + n] else digits (n div 10) @ [48 + n mod 10])"

declare digits.simps [simp del]

text \<open>Reading a decimal numeral back (used only to state what a marker reports).\<close>

definition undigits :: "jsstring \<Rightarrow> nat" where
  "undigits ds = foldl (\<lambda>a d. 10 * a + (d - 48)) 0 ds"

text \<open>
  The values \<open>truncateDeep\<close> can meet, by the outcome of \<open>typeof\<close>: \<open>null\<close> and
  \<open>undefined\<close>, strings, numbers, booleans, functions, and objects (arrays and plain
  objects); \<open>VOther s\<close> stands for a symbol or bigint whose \<open>String(v)\<close> is \<open>s\<close>.
  An object that is reachable along more than one path, or from itself, lives in the heap
  and is named by its address (\<open>VRef a\<close>): two occurrences of \<open>VRef a\<close> are the same
  object. \<open>VArr\<close> and \<open>VObj\<close> written in place are objects with a single reference
  to them, such as the fresh arrays and objects that \<open>truncateDeep\<close> itself builds.
  The fields of an object are listed in the order of \<open>Object.keys\<close>.
\<close>

datatype val =
    VNull
  | VUndefined
  | VStr jsstring
  | VNum real
  | VBool bool
  | VFun
  | VOther jsstring
  | VArr "val list"
  | VObj "(jsstring \<times> val) list"
  | VRef nat

type_synonym heap = "val list"

text \<open>
  The assignment \<open>out[k] = v\<close> on an object created by \<open>{}\<close>, given by the list of
  its own fields. For the key \<open>__proto__\<close> the assignment reaches the setter inherited
  from \<open>Object.prototype\<close>: it replaces the prototype of \<open>out\<close> or does nothing, and
  no own field is written. The prototype is not seen by \<open>Object.keys\<close> and
  \<open>JSON.stringify\<close>, which are what reads the object afterwards, and is left out.
\<close>

definition protoKey :: jsstring where
  "protoKey = str ''__proto__''"

fun assign_field :: "(jsstring \<times> val) list \<Rightarrow> jsstring \<Rightarrow> val \<Rightarrow> (jsstring \<times> val) list" where
  "assign_field [] k v = [(k, v)]"
| "assign_field ((k', v') # kvs) k v =
     (if k' = k then (k, v) # kvs else (k', v') # assign_field kvs k v)"

definition set_prop :: "(jsstring \<times> val) list \<Rightarrow> jsstring \<Rightarrow> val \<Rightarrow> (jsstring \<times> val) list" where
  "set_prop kvs k v = (if k = protoKey then kvs else assign_field kvs k v)"

text \<open>The property read \<open>o[k]\<close>; \<open>undefined\<close> when \<open>o\<close> has no such field.\<close>

fun get_prop :: "val \<Rightarrow> jsstring \<Rightarrow> val" where
  "get_prop (VObj kvs) k = (case map_of kvs k of Some v \<Rightarrow> v | None \<Rightarrow> VUndefined)"
| "get_prop v k = VUndefined"

text \<open>Truthiness of a value (\<open>NaN\<close> is not represented).\<close>

fun truthy :: "val \<Rightarrow> bool" where
  "truthy VNull = False"
| "truthy VUndefined = False"
| "truthy (VStr s) = (s \<noteq> [])"
| "truthy (VNum n) = (n \<noteq> 0)"
| "truthy (VBool b) = b"
| "truthy v = True"


section \<open>Deep truncation of tool results (\<open>truncateDeep\<close>)\<close>

record limits =
  maxChars :: nat
  maxArray :: nat
  maxKeys :: nat

definition defaultLimits :: limits where
  "defaultLimits = \<lparr>maxChars = 1500, maxArray = 50, maxKeys = 50\<rparr>"

text \<open>The three markers, as the template literals of the source build them.\<close>

definition charsMarker :: "nat \<Rightarrow> jsstring" where
  "charsMarker n = ellipsis # str '' [truncated '' @ digits n @ str '' chars]''"

definition itemsMarker :: "nat \<Rightarrow> jsstring" where
  "itemsMarker n = ellipsis # str '' ['' @ digits n @ str '' more items truncated]''"

definition keysMarker :: "nat \<Rightarrow> jsstring" where
  "keysMarker n = ellipsis # str '' ['' @ digits n @ str '' more keys truncated]''"

text \<open>
  The inner function \<open>trunc\<close>. The \<open>WeakSet\<close> \<open>seen\<close> is threaded through the
  traversal: \<open>trunc\<close> takes it and returns it updated, and \<open>trunc_list\<close> is
  \<open>Array.prototype.map\<close> over the children, left to right. An object in the heap is
  looked up in \<open>seen\<close> and added to it before its children are visited. An object
  written in place has no other reference to it, so the lookup fails and the addition is
  never observed; both are omitted for it. An address outside the heap does not occur in a
  JavaScript heap; the model answers \<open>undefined\<close> there. An object's keys are distinct,
  so \<open>v[k]\<close> for the \<open>k\<close>-th key is the value listed with it.
\<close>

function (domintros) trunc :: "heap \<Rightarrow> limits \<Rightarrow> val \<Rightarrow> nat set \<Rightarrow> val \<times> nat set"
  and trunc_list :: "heap \<Rightarrow> limits \<Rightarrow> val list \<Rightarrow> nat set \<Rightarrow> val list \<times> nat set"
where
  "trunc h lm VNull seen = (VNull, seen)"
| "trunc h lm VUndefined seen = (VUndefined, seen)"
| "trunc h lm (VStr s) seen =
     (VStr (if length s > maxChars lm
            then take (maxChars lm) s @ charsMarker (length s - maxChars lm)
            else s), seen)"
| "trunc h lm (VNum n) seen = (VNum n, seen)"
| "trunc h lm (VBool b) seen = (VBool b, seen)"
| "trunc h lm VFun seen = (VStr (str ''[function]''), seen)"
| "trunc h lm (VRef a) seen =
     (if a \<in> seen then (VStr (str ''[circular]''), seen)
      else if a < length h then trunc h lm (h ! a) (insert a seen)
      else (VUndefined, seen))"
| "trunc h lm (VArr xs) seen =
     (let (out, seen') = trunc_list h lm (take (maxArray lm) xs) seen
      in (VArr (if length xs > maxArray lm
                then out @ [VStr (itemsMarker (length xs - maxArray lm))]
                else out), seen'))"
| "trunc h lm (VObj kvs) seen =
     (let keys = take (maxKeys lm) (map fst kvs);
          (vs, seen') = trunc_list h lm (map snd (take (maxKeys lm) kvs)) seen;
          out = fold (\<lambda>(k, v) out. set_prop out k v) (zip keys vs) []
      in (VObj (if length kvs > maxKeys lm
                then set_prop out (str ''__truncated__'')
                       (VStr (keysMarker (length kvs - maxKeys lm)))
                else out), seen'))"
| "trunc h lm (VOther s) seen = (VStr s, seen)"
| "trunc_list h lm [] seen = ([], seen)"
| "trunc_list h lm (x # xs) seen =
     (let (y, s1) = trunc h lm x seen;
          (ys, s2) = trunc_list h lm xs s1
      in (y # ys, s2))"
  by pat_completeness auto

text \<open>
  Termination. The set \<open>seen\<close> only grows along the traversal, which is needed to see
  that the call on the rest of a list does not have more unvisited heap objects before it
  than the call on the whole list had.
\<close>

lemma trunc_seen_mono_dom:
  "trunc_trunc_list_dom (Inl (h, lm, v, seen)) \<Longrightarrow> seen \<subseteq> snd (trunc h lm v seen)"
  "trunc_trunc_list_dom (Inr (h, lm, vs, seen)) \<Longrightarrow> seen \<subseteq> snd (trunc_list h lm vs seen)"
proof (induct h lm v seen and h lm vs seen rule: trunc_trunc_list.pinduct)
  case (7 h lm a seen)
  then show ?case by (auto simp: trunc.psimps)
next
  case (8 h lm xs seen)
  then show ?case by (auto simp: trunc.psimps split: prod.splits)
next
  case (9 h lm kvs seen)
  then show ?case by (auto simp: trunc.psimps Let_def split: prod.splits)
next
  case (12 h lm x xs seen)
  then show ?case by (fastforce simp: trunc_list.psimps split: prod.splits)
qed (simp_all add: trunc.psimps trunc_list.psimps)

lemma size_list_take_le: "size_list f (take n xs) \<le> size_list f xs"
proof (induction xs arbitrary: n)
  case Nil
  show ?case by simp
next
  case (Cons x xs)
  show ?case using Cons.IH by (cases n) (auto intro: le_SucI)
qed

lemma size_list_fields_le:
  "size_list (size \<circ> snd) (take n kvs) \<le> size_list (size_prod (\<lambda>x. 0) size) kvs"
proof (induction kvs arbitrary: n)
  case Nil
  show ?case by simp
next
  case (Cons kv kvs)
  show ?case using Cons.IH by (cases n; cases kv) (auto intro: le_SucI)
qed

definition unseen :: "heap \<Rightarrow> nat set \<Rightarrow> nat" where
  "unseen h seen = card ({..<length h} - seen)"

lemma unseen_mono: "s \<subseteq> s' \<Longrightarrow> unseen h s' \<le> unseen h s"
  unfolding unseen_def by (rule card_mono) auto

lemma unseen_insert: "a < length h \<Longrightarrow> a \<notin> s \<Longrightarrow> unseen h (insert a s) < unseen h s"
  unfolding unseen_def by (rule psubset_card_mono) auto

termination trunc
proof (relation "inv_image (less_than <*lex*> less_than)
         (\<lambda>x. case x of Inl (h, lm, v, seen) \<Rightarrow> (unseen h seen, size v)
                       | Inr (h, lm, vs, seen) \<Rightarrow> (unseen h seen, size_list size vs))",
       goal_cases)
  case 1
  show ?case by auto
next
  case (2 h lm a seen)
  then show ?case by (simp add: unseen_insert)
next
  case (3 h lm xs seen)
  show ?case using size_list_take_le[of size "maxArray lm" xs] by simp
next
  case (4 h lm kvs seen keys)
  show ?case using size_list_fields_le[of "maxKeys lm" kvs] by simp
next
  case (5 h lm x xs seen)
  show ?case by simp
next
  case (6 h lm x xs seen r y s1)
  then have "seen \<subseteq> s1"
    using trunc_seen_mono_dom(1)[of h lm x seen] by (metis snd_conv)
  then have "unseen h s1 \<le> unseen h seen" by (rule unseen_mono)
  then show ?case by auto
qed

text \<open>\<open>truncateDeep(value, limits)\<close>: a fresh \<open>seen\<close>, then \<open>trunc(value)\<close>.\<close>

definition truncateDeep :: "heap \<Rightarrow> val \<Rightarrow> limits \<Rightarrow> val" where
  "truncateDeep h v lm = fst (trunc h lm v {})"

text \<open>The limits \<open>makeFunctionResponseParts\<close> passes for every tool result.\<close>

definition responseLimits :: limits where
  "responseLimits = \<lparr>maxChars = 2000, maxArray = 30, maxKeys = 30\<rparr>"


text \<open>
  The call stack. \<open>trunc\<close> calls itself for every child of an array or object, so a
  value nested deeper than the stack of the engine allows makes the call throw a
  \<open>RangeError\<close>. \<open>truncWithin d\<close> is \<open>trunc\<close> run where the stack has room for
  \<open>d\<close> more nested calls of \<open>trunc\<close>; \<open>None\<close> is the \<open>RangeError\<close>. The check
  of \<open>seen\<close> and the visit of the children of an object belong to one call, so following
  a reference into the heap does not take room.
\<close>

function (domintros) truncWithin :: "nat \<Rightarrow> heap \<Rightarrow> limits \<Rightarrow> val \<Rightarrow> nat set \<Rightarrow> (val \<times> nat set) option"
  and truncWithin_list :: "nat \<Rightarrow> heap \<Rightarrow> limits \<Rightarrow> val list \<Rightarrow> nat set \<Rightarrow> (val list \<times> nat set) option"
where
  "truncWithin 0 h lm v seen = None"
| "truncWithin (Suc d) h lm VNull seen = Some (VNull, seen)"
| "truncWithin (Suc d) h lm VUndefined seen = Some (VUndefined, seen)"
| "truncWithin (Suc d) h lm (VStr s) seen =
     Some (VStr (if length s > maxChars lm
                 then take (maxChars lm) s @ charsMarker (length s - maxChars lm)
                 else s), seen)"
| "truncWithin (Suc d) h lm (VNum n) seen = Some (VNum n, seen)"
| "truncWithin (Suc d) h lm (VBool b) seen = Some (VBool b, seen)"
| "truncWithin (Suc d) h lm VFun seen = Some (VStr (str ''[function]''), seen)"
| "truncWithin (Suc d) h lm (VRef a) seen =
     (if a \<in> seen then Some (VStr (str ''[circular]''), seen)
      else if a < length h then truncWithin (Suc d) h lm (h ! a) (insert a seen)
      else Some (VUndefined, seen))"
| "truncWithin (Suc d) h lm (VArr xs) seen =
     (case truncWithin_list d h lm (take (maxArray lm) xs) seen of
        None \<Rightarrow> None
      | Some (out, seen') \<Rightarrow>
          Some (VArr (if length xs > maxArray lm
                      then out @ [VStr (itemsMarker (length xs - maxArray lm))]
                      else out), seen'))"
| "truncWithin (Suc d) h lm (VObj kvs) seen =
     (case truncWithin_list d h lm (map snd (take (maxKeys lm) kvs)) seen of
        None \<Rightarrow> None
      | Some (vs, seen') \<Rightarrow>
          (let keys = take (maxKeys lm) (map fst kvs);
               out = fold (\<lambda>(k, v) out. set_prop out k v) (zip keys vs) []
           in Some (VObj (if length kvs > maxKeys lm
                          then set_prop out (str ''__truncated__'')
                                 (VStr (keysMarker (length kvs - maxKeys lm)))
                          else out), seen')))"
| "truncWithin (Suc d) h lm (VOther s) seen = Some (VStr s, seen)"
| "truncWithin_list d h lm [] seen = Some ([], seen)"
| "truncWithin_list d h lm (x # xs) seen =
     (case truncWithin d h lm x seen of
        None \<Rightarrow> None
      | Some (y, s1) \<Rightarrow>
          (case truncWithin_list d h lm xs s1 of
             None \<Rightarrow> None
           | Some (ys, s2) \<Rightarrow> Some (y # ys, s2)))"
  by pat_completeness auto

lemma truncWithin_seen_mono_dom:
  "truncWithin_truncWithin_list_dom (Inl (d, h, lm, v, seen)) \<Longrightarrow>
   truncWithin d h lm v seen = Some (r, s') \<Longrightarrow> seen \<subseteq> s'"
  "truncWithin_truncWithin_list_dom (Inr (d, h, lm, vs, seen)) \<Longrightarrow>
   truncWithin_list d h lm vs seen = Some (rs, s') \<Longrightarrow> seen \<subseteq> s'"
proof (induct d h lm v seen and d h lm vs seen arbitrary: r s' and rs s'
       rule: truncWithin_truncWithin_list.pinduct)
  case (8 d h lm a seen)
  then show ?case by (auto simp: truncWithin.psimps split: if_splits)
next
  case (9 d h lm xs seen)
  then show ?case by (auto simp: truncWithin.psimps split: option.splits prod.splits)
next
  case (10 d h lm kvs seen)
  then show ?case by (auto simp: truncWithin.psimps Let_def split: option.splits prod.splits)
next
  case (13 d h lm x xs seen)
  then show ?case
    by (fastforce simp: truncWithin_list.psimps split: option.splits prod.splits)
qed (auto simp: truncWithin.psimps truncWithin_list.psimps)

termination truncWithin
proof (relation "inv_image (less_than <*lex*> less_than <*lex*> less_than)
         (\<lambda>x. case x of Inl (d, h, lm, v, seen) \<Rightarrow> (d, unseen h seen, size v)
                       | Inr (d, h, lm, vs, seen) \<Rightarrow> (d, unseen h seen, size_list size vs))",
       goal_cases)
  case 1
  show ?case by auto
next
  case (2 d h lm a seen)
  then show ?case by (simp add: unseen_insert)
next
  case (3 d h lm xs seen)
  show ?case by simp
next
  case (4 d h lm kvs seen)
  show ?case by simp
next
  case (5 d h lm x xs seen)
  show ?case by simp
next
  case (6 d h lm x xs seen x2 y s1)
  then have "seen \<subseteq> s1"
    using truncWithin_seen_mono_dom(1)[of d h lm x seen y s1] by simp
  then have "unseen h s1 \<le> unseen h seen" by (rule unseen_mono)
  then show ?case by auto
qed

text \<open>\<open>truncateDeep\<close> on a stack with room for \<open>d\<close> nested calls of \<open>trunc\<close>.\<close>

definition truncateDeepWithin :: "nat \<Rightarrow> heap \<Rightarrow> val \<Rightarrow> limits \<Rightarrow> val option" where
  "truncateDeepWithin d h v lm = map_option fst (truncWithin d h lm v {})"


section \<open>Conversation contents and the character budget\<close>

text \<open>
  A tool call requested by the model, a part of a content entry (\<open>text\<close>, here
  \<open>ptext\<close>,
  \<open>functionCall\<close> and \<open>functionResponse\<close> are each present or absent), and a
  content entry. A response candidate is stored in the same shape: the source reads
  \<open>candidate.content?.parts || candidate.parts\<close> and pushes
  \<open>candidate.content || candidate\<close>, so the entry pushed carries the parts that were read.
\<close>

record call =
  call_name :: jsstring
  call_args :: val

record part =
  ptext :: "jsstring option"
  functionCall :: "call option"
  functionResponse :: "(jsstring \<times> val) option"

record content =
  role :: jsstring
  parts :: "part list"

definition textPart :: "jsstring \<Rightarrow> part" where
  "textPart t = \<lparr>ptext = Some t, functionCall = None, functionResponse = None\<rparr>"

definition partChars :: "part \<Rightarrow> nat" where
  "partChars p = (case ptext p of Some t \<Rightarrow> length t | None \<Rightarrow> 0)"

definition estimateContentChars :: "content list \<Rightarrow> nat" where
  "estimateContentChars contents = sum_list (map (\<lambda>c. sum_list (map partChars (parts c))) contents)"

text \<open>
  \<open>trimContents\<close>: the loop runs \<open>i\<close> from \<open>contents.length - 1\<close> down to \<open>0\<close>;
  \<open>trimLoop\<close> takes \<open>i + 1\<close>. \<open>unshift\<close> puts the entry in front of \<open>kept\<close> and
  \<open>shift\<close> removes it again.
\<close>

fun trimLoop :: "content list \<Rightarrow> int \<Rightarrow> nat \<Rightarrow> content list \<Rightarrow> content list" where
  "trimLoop contents maxc 0 kept = kept"
| "trimLoop contents maxc (Suc i) kept =
     (let kept' = contents ! i # kept
      in if int (estimateContentChars kept') > maxc then tl kept'
         else trimLoop contents maxc i kept')"

definition trimContents :: "content list \<Rightarrow> int \<Rightarrow> content list" where
  "trimContents contents maxc =
     (if int (estimateContentChars contents) \<le> maxc then contents
      else trimLoop contents maxc (length contents) [])"


section \<open>The outside world: network, timers, the user, the page\<close>

text \<open>
  What the driver cannot decide is read from an environment: the outcome of the \<open>k\<close>-th
  \<open>fetch\<close>, the \<open>k\<close>-th value of \<open>Math.random()\<close>, the user's answer to the
  \<open>k\<close>-th approval request (or the expiry of the wait), and the result of the \<open>k\<close>-th
  \<open>executeTool\<close>. \<open>JSON.parse\<close> and \<open>JSON.stringify\<close> are platform functions and
  are parameters as well, as are the heap in which tool results live and the room the
  call stack has for nested calls of \<open>trunc\<close> when a tool result is truncated. The
  world counts the calls made so far and records every effect in a trace.
\<close>

record request =
  req_model :: jsstring
  req_tools :: bool
  req_contents :: "content list"

text \<open>
  \<open>Response status text body\<close>: \<open>text\<close> is what \<open>resp.text()\<close> yields, and
  \<open>body\<close> is what becomes of \<open>resp.json()\<close>: it rejects because the text is not
  JSON (\<open>Unparsable\<close>), or it yields \<open>null\<close>, or another falsy value (\<open>false\<close>,
  \<open>0\<close>, the empty string), or a truthy value, of which \<open>candidates?.[0]\<close> is kept.
\<close>

datatype body = Unparsable | JNull | JFalsy | Json "content option"

datatype fetch_result = NetworkError | Response nat jsstring body

datatype approval = Approved | Declined | TimedOut

datatype event =
    EFetch request fetch_result
  | ESleep real
  | EStream jsstring
  | EApprovalRequest "call list"
  | EApprovalResponse approval
  | EToolStatus jsstring
  | EExec int jsstring val val

record env =
  fetch_at :: "nat \<Rightarrow> request \<Rightarrow> fetch_result"
  random_at :: "nat \<Rightarrow> real"
  approval_at :: "nat \<Rightarrow> call list \<Rightarrow> approval"
  tool_at :: "nat \<Rightarrow> jsstring \<Rightarrow> val \<Rightarrow> val \<Rightarrow> val"
  json_parse :: "jsstring \<Rightarrow> val option"
  json_stringify :: "call list \<Rightarrow> jsstring"
  env_heap :: heap
  stack_room :: nat

record world =
  nfetch :: nat
  nrandom :: nat
  napproval :: nat
  ntool :: nat
  trace :: "event list"

definition world0 :: world where
  "world0 = \<lparr>nfetch = 0, nrandom = 0, napproval = 0, ntool = 0, trace = []\<rparr>"

definition emit :: "event \<Rightarrow> world \<Rightarrow> world" where
  "emit ev w = w\<lparr>trace := trace w @ [ev]\<rparr>"

definition fetch :: "env \<Rightarrow> request \<Rightarrow> world \<Rightarrow> fetch_result \<times> world" where
  "fetch e rq w =
     (let r = fetch_at e (nfetch w) rq
      in (r, emit (EFetch rq r) (w\<lparr>nfetch := nfetch w + 1\<rparr>)))"

text \<open>\<open>resp.ok\<close>: the status is in the range 200 to 299.\<close>

definition ok :: "nat \<Rightarrow> bool" where
  "ok status = (200 \<le> status \<and> status \<le> 299)"

text \<open>The backoff pause of \<open>fetchWithRetry\<close>: \<open>baseDelay * 2^attempt + Math.random() * 100\<close>.\<close>

definition backoff :: "env \<Rightarrow> real \<Rightarrow> nat \<Rightarrow> world \<Rightarrow> world" where
  "backoff e baseDelay attempt w =
     (let jitter = random_at e (nrandom w) * 100;
          delay = baseDelay * 2 ^ attempt + jitter
      in emit (ESleep delay) (w\<lparr>nrandom := nrandom w + 1\<rparr>))"

text \<open>
  \<open>fetchWithRetry\<close>. The result \<open>NetworkError\<close> stands for the exception thrown at the
  end (\<open>throw lastErr\<close>, or the last \<open>fetch\<close> rejecting); \<open>lastErr\<close> is kept as the
  flag of its being set.
\<close>

function fetchRetryLoop ::
  "env \<Rightarrow> request \<Rightarrow> nat \<Rightarrow> real \<Rightarrow> nat \<Rightarrow> bool \<Rightarrow> world \<Rightarrow> fetch_result \<times> world" where
  "fetchRetryLoop e rq retries baseDelay attempt lastErr w =
     (if attempt \<le> retries then
        (case fetch e rq w of
           (Response status tx js, w1) \<Rightarrow>
             if ok status then (Response status tx js, w1)
             else if status \<in> {500, 503, 504}
               then fetchRetryLoop e rq retries baseDelay (attempt + 1) lastErr
                      (backoff e baseDelay attempt w1)
               else (Response status tx js, w1)
         | (NetworkError, w1) \<Rightarrow>
             fetchRetryLoop e rq retries baseDelay (attempt + 1) True
               (backoff e baseDelay attempt w1))
      else if lastErr then (NetworkError, w)
      else fetch e rq w)"
  by pat_completeness auto
termination
  by (relation "measure (\<lambda>(e, rq, retries, baseDelay, attempt, lastErr, w). retries + 1 - attempt)")
     auto

declare fetchRetryLoop.simps [simp del]

definition fetchWithRetry ::
  "env \<Rightarrow> request \<Rightarrow> nat \<Rightarrow> real \<Rightarrow> world \<Rightarrow> fetch_result \<times> world" where
  "fetchWithRetry e rq retries baseDelay w = fetchRetryLoop e rq retries baseDelay 0 False w"


section \<open>Summarising and compressing the conversation\<close>

text \<open>
  The configuration object \<open>STATE\<close> (the API key only enters the request URL and is left
  out; a request is identified by its model, whether tool declarations are attached, and
  its contents).
\<close>

record state =
  st_model :: jsstring
  autoApprove :: bool
  maxToolRounds :: int

record message =
  m_role :: jsstring
  m_content :: jsstring

definition userContent :: "jsstring \<Rightarrow> content" where
  "userContent t = \<lparr>role = str ''user'', parts = [textPart t]\<rparr>"

definition messageContent :: "message \<Rightarrow> content" where
  "messageContent m =
     \<lparr>role = (if m_role m = str ''assistant'' then str ''model'' else str ''user''),
      parts = [textPart (m_content m)]\<rparr>"

definition preferredModel :: "state \<Rightarrow> jsstring" where
  "preferredModel S = (if st_model S \<noteq> [] then st_model S else str ''gemini-2.0-flash'')"

text \<open>\<open>json.candidates?.[0]?.content?.parts?.[0]?.text || ''\<close>\<close>

definition firstPartText :: "content option \<Rightarrow> jsstring" where
  "firstPartText js =
     (case js of
        None \<Rightarrow> []
      | Some c \<Rightarrow> (case parts c of
                     [] \<Rightarrow> []
                   | p # ps \<Rightarrow> (case ptext p of Some t \<Rightarrow> t | None \<Rightarrow> [])))"

text \<open>
  \<open>generateContentOnce\<close> returns the \<open>text\<close> of its result; \<open>None\<close> stands for an
  exception: the one \<open>fetchWithRetry\<close> lets through, the rejection of \<open>resp.json()\<close>,
  or the \<open>TypeError\<close> of reading \<open>candidates\<close> of \<open>null\<close>.
\<close>

definition generateContentOnce ::
  "env \<Rightarrow> state \<Rightarrow> message list \<Rightarrow> jsstring option \<Rightarrow> bool \<Rightarrow> world \<Rightarrow> jsstring option \<times> world" where
  "generateContentOnce e S msgs system tools w =
     (let sysPart = (case system of
                       None \<Rightarrow> []
                     | Some sy \<Rightarrow> if sy = [] then [] else [userContent (str ''SYSTEM:'' @ sy)]);
          rq = \<lparr>req_model = preferredModel S, req_tools = tools,
                req_contents = sysPart @ map messageContent msgs\<rparr>
      in case fetchWithRetry e rq 2 600 w of
           (NetworkError, w1) \<Rightarrow> (None, w1)
         | (Response status tx b, w1) \<Rightarrow>
             if \<not> ok status then (Some [], w1)
             else (case b of
                     Unparsable \<Rightarrow> (None, w1)
                   | JNull \<Rightarrow> (None, w1)
                   | JFalsy \<Rightarrow> (Some [], w1)
                   | Json js \<Rightarrow> (Some (firstPartText js), w1)))"

fun join :: "jsstring \<Rightarrow> jsstring list \<Rightarrow> jsstring" where
  "join sep [] = []"
| "join sep [x] = x"
| "join sep (x # y # ys) = x @ sep @ join sep (y # ys)"

text \<open>\<open>toUpperCase\<close> on the letters a to z (the roles are ASCII words).\<close>

definition toUpperCase :: "jsstring \<Rightarrow> jsstring" where
  "toUpperCase s = map (\<lambda>c. if 97 \<le> c \<and> c \<le> 122 then c - 32 else c) s"

definition flattenContent :: "content \<Rightarrow> jsstring" where
  "flattenContent c =
     (let r = (if role c \<noteq> [] then role c else str ''user'');
          t = join [10] (filter (\<lambda>t. t \<noteq> []) (List.map_filter ptext (parts c)))
      in toUpperCase r @ str '': '' @ t)"

definition summarizerPrompt :: jsstring where
  "summarizerPrompt = str (''You are a concise conversation summarizer. Summarize the following chat history into <= 10 bullet points, preserving key decisions, URLs, and user preferences. Avoid repetition. Max 1200 characters.'')"

definition summarizeHistoryText :: "env \<Rightarrow> state \<Rightarrow> content list \<Rightarrow> world \<Rightarrow> jsstring \<times> world" where
  "summarizeHistoryText e S headContents w =
     (let t = join [10, 10] (map flattenContent headContents)
      in case generateContentOnce e S [\<lparr>m_role = str ''user'', m_content = t\<rparr>]
                (Some summarizerPrompt) False w of
           (Some res, w1) \<Rightarrow> (take 1200 res, w1)
         | (None, w1) \<Rightarrow> (str ''Summary unavailable due to error.'', w1))"

definition summaryContent :: "jsstring \<Rightarrow> content" where
  "summaryContent summary =
     userContent (str ''Conversation summary (compressed):'' @ [10] @ summary)"

text \<open>The \<open>while (tailCount > 2)\<close> loop of \<open>compressIfNeeded\<close>, then the hard trim.\<close>

function compressLoop ::
  "env \<Rightarrow> state \<Rightarrow> content list \<Rightarrow> int \<Rightarrow> nat \<Rightarrow> world \<Rightarrow> content list \<times> world" where
  "compressLoop e S contents maxc tailCount w =
     (if tailCount > 2 then
        (let hd_part = take (length contents - tailCount) contents;
             tl_part = drop (length contents - tailCount) contents;
             (summary, w1) = summarizeHistoryText e S hd_part w;
             newContents = summaryContent summary # tl_part
         in if int (estimateContentChars newContents) \<le> maxc then (newContents, w1)
            else compressLoop e S contents maxc (tailCount - 2) w1)
      else (trimContents contents maxc, w))"
  by pat_completeness auto
termination
  by (relation "measure (\<lambda>(e, S, contents, maxc, tailCount, w). tailCount)") auto

declare compressLoop.simps [simp del]

definition compressIfNeeded ::
  "env \<Rightarrow> state \<Rightarrow> content list \<Rightarrow> int \<Rightarrow> world \<Rightarrow> content list \<times> world" where
  "compressIfNeeded e S contents maxc w =
     (if int (estimateContentChars contents) \<le> maxc then (contents, w)
      else compressLoop e S contents maxc (min (length contents) 8) w)"


section \<open>Properties of values, for the statements about truncation\<close>

text \<open>\<open>all_nodes P v\<close>: \<open>P\<close> holds of \<open>v\<close> and of every value nested in it.\<close>

fun all_nodes :: "(val \<Rightarrow> bool) \<Rightarrow> val \<Rightarrow> bool"
  and all_nodes_list :: "(val \<Rightarrow> bool) \<Rightarrow> val list \<Rightarrow> bool"
  and all_nodes_fields :: "(val \<Rightarrow> bool) \<Rightarrow> (jsstring \<times> val) list \<Rightarrow> bool"
where
  "all_nodes P (VArr xs) = (P (VArr xs) \<and> all_nodes_list P xs)"
| "all_nodes P (VObj kvs) = (P (VObj kvs) \<and> all_nodes_fields P kvs)"
| "all_nodes P v = P v"
| "all_nodes_list P [] = True"
| "all_nodes_list P (x # xs) = (all_nodes P x \<and> all_nodes_list P xs)"
| "all_nodes_fields P [] = True"
| "all_nodes_fields P (kv # kvs) = (all_nodes P (snd kv) \<and> all_nodes_fields P kvs)"

text \<open>
  The limits as the claim states them: a string of at most \<open>maxChars\<close> characters, an
  array of at most \<open>maxArray\<close> items, an object of at most \<open>maxKeys\<close> keys.
\<close>

definition fits :: "limits \<Rightarrow> val \<Rightarrow> bool" where
  "fits lm v =
     (case v of
        VStr s \<Rightarrow> length s \<le> maxChars lm
      | VArr xs \<Rightarrow> length xs \<le> maxArray lm
      | VObj kvs \<Rightarrow> length kvs \<le> maxKeys lm
      | _ \<Rightarrow> True)"

definition withinLimits :: "limits \<Rightarrow> val \<Rightarrow> bool" where
  "withinLimits lm v = all_nodes (fits lm) v"

text \<open>
  Plain data: no function, no symbol or bigint, no reference into the heap, and the keys
  of an object distinct.
\<close>

definition plainNode :: "val \<Rightarrow> bool" where
  "plainNode v =
     (case v of
        VFun \<Rightarrow> False
      | VOther s \<Rightarrow> False
      | VRef a \<Rightarrow> False
      | VObj kvs \<Rightarrow> distinct (map fst kvs)
      | _ \<Rightarrow> True)"

definition plain :: "val \<Rightarrow> bool" where
  "plain v = all_nodes plainNode v"



definition notOther :: "val \<Rightarrow> bool" where
  "notOther v = (case v of VOther s \<Rightarrow> False | _ \<Rightarrow> True)"

text \<open>No symbol or bigint in the value, nor in any object of the heap.\<close>

definition symbolFree :: "heap \<Rightarrow> val \<Rightarrow> bool" where
  "symbolFree h v = (all_nodes notOther v \<and> all_nodes_list notOther h)"

text \<open>
  Markers. A marker is a prefix, the decimal count, and a suffix; \<open>markerCount\<close> reads
  the count back from a string and \<open>isMarker\<close> says that the string is exactly the marker
  for the positive count read from it.
\<close>

definition charsPre :: jsstring where "charsPre = ellipsis # str '' [truncated ''"
definition charsSuf :: jsstring where "charsSuf = str '' chars]''"
definition countPre :: jsstring where "countPre = ellipsis # str '' [''"
definition itemsSuf :: jsstring where "itemsSuf = str '' more items truncated]''"
definition keysSuf :: jsstring where "keysSuf = str '' more keys truncated]''"

definition markerCount :: "jsstring \<Rightarrow> jsstring \<Rightarrow> jsstring \<Rightarrow> nat" where
  "markerCount pre suf s =
     undigits (take (length s - length pre - length suf) (drop (length pre) s))"

definition isMarker :: "jsstring \<Rightarrow> jsstring \<Rightarrow> jsstring \<Rightarrow> bool" where
  "isMarker pre suf s =
     (0 < markerCount pre suf s \<and> s = pre @ digits (markerCount pre suf s) @ suf)"

definition isNote :: "jsstring \<Rightarrow> bool" where
  "isNote s = (isMarker countPre itemsSuf s \<or> isMarker countPre keysSuf s
               \<or> s = str ''[circular]'' \<or> s = str ''[function]'')"

text \<open>
  The limits with the markers counted in: a string has at most \<open>maxChars\<close> characters,
  or its first \<open>maxChars\<close> characters are followed by a characters marker, or it is a
  marker or placeholder itself; an array has at most \<open>maxArray\<close> items, or one more, the
  last being an items marker; an object has at most \<open>maxKeys\<close> keys, or one more, with
  a keys marker under \<open>__truncated__\<close>.
\<close>

definition fitsMarked :: "limits \<Rightarrow> val \<Rightarrow> bool" where
  "fitsMarked lm v =
     (case v of
        VStr s \<Rightarrow> length s \<le> maxChars lm
                  \<or> isMarker charsPre charsSuf (drop (maxChars lm) s) \<or> isNote s
      | VArr xs \<Rightarrow> length xs \<le> maxArray lm
                  \<or> (length xs = maxArray lm + 1
                      \<and> (case last xs of VStr s \<Rightarrow> isMarker countPre itemsSuf s | _ \<Rightarrow> False))
      | VObj kvs \<Rightarrow> length kvs \<le> maxKeys lm
                  \<or> (length kvs = maxKeys lm + 1
                      \<and> (case map_of kvs (str ''__truncated__'') of
                            Some (VStr s) \<Rightarrow> isMarker countPre keysSuf s
                          | _ \<Rightarrow> False))
      | _ \<Rightarrow> True)"

definition bounded :: "limits \<Rightarrow> val \<Rightarrow> bool" where
  "bounded lm v = all_nodes (\<lambda>x. plainNode x \<and> fitsMarked lm x) v"

text \<open>The items of an array value and the fields of an object value.\<close>

fun arrayItems :: "val \<Rightarrow> val list" where
  "arrayItems (VArr xs) = xs"
| "arrayItems v = []"

fun objectFields :: "val \<Rightarrow> (jsstring \<times> val) list" where
  "objectFields (VObj kvs) = kvs"
| "objectFields v = []"

fun stringOf :: "val \<Rightarrow> jsstring" where
  "stringOf (VStr s) = s"
| "stringOf v = []"

text \<open>
  The number of arrays and objects in a value, and in the objects of the heap that are
  not in \<open>seen\<close>.
\<close>

fun containers :: "val \<Rightarrow> nat"
  and containers_list :: "val list \<Rightarrow> nat"
  and containers_fields :: "(jsstring \<times> val) list \<Rightarrow> nat"
where
  "containers (VArr xs) = 1 + containers_list xs"
| "containers (VObj kvs) = 1 + containers_fields kvs"
| "containers v = 0"
| "containers_list [] = 0"
| "containers_list (x # xs) = containers x + containers_list xs"
| "containers_fields [] = 0"
| "containers_fields (kv # kvs) = containers (snd kv) + containers_fields kvs"

definition heapContainers :: "heap \<Rightarrow> nat set \<Rightarrow> nat" where
  "heapContainers h seen = (\<Sum>a \<in> {..<length h} - seen. containers (h ! a))"

text \<open>
  The references a call of \<open>trunc\<close> on the value meets before it follows any of them:
  those among the first \<open>maxArray\<close> items and the first \<open>maxKeys\<close> fields, at any
  depth. \<open>keptRefs_list lm n xs\<close> are those in the first \<open>n\<close> items of \<open>xs\<close>.
\<close>

fun keptRefs :: "limits \<Rightarrow> val \<Rightarrow> nat set"
  and keptRefs_list :: "limits \<Rightarrow> nat \<Rightarrow> val list \<Rightarrow> nat set"
  and keptRefs_fields :: "limits \<Rightarrow> nat \<Rightarrow> (jsstring \<times> val) list \<Rightarrow> nat set"
where
  "keptRefs lm (VRef a) = {a}"
| "keptRefs lm (VArr xs) = keptRefs_list lm (maxArray lm) xs"
| "keptRefs lm (VObj kvs) = keptRefs_fields lm (maxKeys lm) kvs"
| "keptRefs lm v = {}"
| "keptRefs_list lm n [] = {}"
| "keptRefs_list lm 0 (x # xs) = {}"
| "keptRefs_list lm (Suc n) (x # xs) = keptRefs lm x \<union> keptRefs_list lm n xs"
| "keptRefs_fields lm n [] = {}"
| "keptRefs_fields lm 0 (kv # kvs) = {}"
| "keptRefs_fields lm (Suc n) (kv # kvs) = keptRefs lm (snd kv) \<union> keptRefs_fields lm n kvs"

text \<open>Arrays nested in each other: \<open>nested n\<close> is \<open>[[...[]...]]\<close> with \<open>n + 1\<close> arrays.\<close>

fun nested :: "nat \<Rightarrow> val" where
  "nested 0 = VArr []"
| "nested (Suc n) = VArr [nested n]"


section \<open>The tool-calling loop (\<open>generateWithToolsLoop\<close>)\<close>

text \<open>
  What the loop returns: \<open>{ text, raw: { model, ... } }\<close> or \<open>{ error }\<close>;
  \<open>Threw\<close> stands for an exception that leaves the loop.
\<close>

datatype outcome = Answer jsstring jsstring | Failure jsstring | Threw

text \<open>The variables of the loop that persist from one round to the next.\<close>

record lstate =
  ls_contents :: "content list"
  currentTabId :: val
  lastCallSignature :: "jsstring option"
  repeatCount :: nat

record payload =
  p_messages :: "message list"
  p_maxToolRounds :: "int option"

text \<open>
  \<open>Array.from(new Set(xs))\<close> keeps the first occurrence of each element, in order.
\<close>

definition uniq :: "'a list \<Rightarrow> 'a list" where
  "uniq xs = rev (remdups (rev xs))"

definition fallbackList :: "state \<Rightarrow> jsstring list" where
  "fallbackList S = uniq [preferredModel S, str ''gemini-2.5-flash'', str ''gemini-1.5-flash'']"

definition safelyParseJSON :: "env \<Rightarrow> jsstring \<Rightarrow> val" where
  "safelyParseJSON e s = (case json_parse e s of Some v \<Rightarrow> v | None \<Rightarrow> VObj [])"

definition normalizeCall :: "env \<Rightarrow> call \<Rightarrow> call" where
  "normalizeCall e fc =
     \<lparr>call_name = call_name fc,
      call_args = (case call_args fc of
                     VStr s \<Rightarrow> safelyParseJSON e s
                   | a \<Rightarrow> if truthy a then a else VObj [])\<rparr>"

definition getFunctionCallsFromCandidate :: "env \<Rightarrow> content option \<Rightarrow> call list" where
  "getFunctionCallsFromCandidate e candidate =
     (case candidate of
        None \<Rightarrow> []
      | Some c \<Rightarrow> map (normalizeCall e) (List.map_filter functionCall (parts c)))"

definition extractTextFromCandidate :: "content option \<Rightarrow> jsstring" where
  "extractTextFromCandidate candidate =
     (case candidate of
        None \<Rightarrow> []
      | Some c \<Rightarrow> concat (List.map_filter ptext (parts c)))"

text \<open>
  \<open>contents.push(candidate.content || candidate)\<close>. It is reached only when the
  candidate requested calls, hence exists.
\<close>

definition pushCandidate :: "content list \<Rightarrow> content option \<Rightarrow> content list" where
  "pushCandidate cs candidate = (case candidate of Some c \<Rightarrow> cs @ [c] | None \<Rightarrow> cs)"

definition stream :: "jsstring \<Rightarrow> world \<Rightarrow> world" where
  "stream t w = emit (EStream t) w"

text \<open>
  The model call of a round: the preferred model, then the fallbacks, with the tool
  declarations attached. \<open>Inl\<close> is what the round returns at once (an error, or the
  exception of \<open>resp.json()\<close>, which is not caught here), \<open>Inr\<close> the first candidate
  of the response and the model that answered. A response that is ok ends the search also
  when its body is falsy; \<open>if (!json)\<close> then gives the error.
\<close>

definition allFailedMessage :: jsstring where
  "allFailedMessage = str ''All model attempts failed (500 or network). Please retry shortly.''"

fun modelCall ::
  "env \<Rightarrow> jsstring list \<Rightarrow> content list \<Rightarrow> world \<Rightarrow> (outcome + content option \<times> jsstring) \<times> world" where
  "modelCall e [] cs w = (Inl (Failure allFailedMessage), w)"
| "modelCall e (mdl # rest) cs w =
     (case fetchWithRetry e \<lparr>req_model = mdl, req_tools = True, req_contents = cs\<rparr> 2 700 w of
        (NetworkError, w1) \<Rightarrow>
          modelCall e rest cs
            (stream (str ''Network error on '' @ mdl @ str ''; trying a fallback model...'') w1)
      | (Response status tx b, w1) \<Rightarrow>
          if \<not> ok status then
            (if status = 500 then
               modelCall e rest cs
                 (stream (str ''Model '' @ mdl
                    @ str '' returned 500 INTERNAL; retrying with a fallback model...'') w1)
             else (Inl (Failure (str ''API error '' @ digits status @ str '': '' @ tx)), w1))
          else (case b of
                  Unparsable \<Rightarrow> (Inl Threw, w1)
                | JNull \<Rightarrow> (Inl (Failure allFailedMessage), w1)
                | JFalsy \<Rightarrow> (Inl (Failure allFailedMessage), w1)
                | Json js \<Rightarrow> (Inr (js, mdl), w1)))"

text \<open>
  The model call without tool declarations, written out twice in the source (after a
  repeated tool plan, and after the last round): the models of the list are tried until a
  response is ok and its body is read. A network error, a status that is not ok and a
  body that is not JSON (the rejection is caught) lead to the next model. A falsy body
  ends the search (\<open>break\<close>) and counts as no answer (\<open>if (finalJson)\<close>).
\<close>

fun finalAnswerWithoutTools ::
  "env \<Rightarrow> jsstring list \<Rightarrow> content list \<Rightarrow> world \<Rightarrow> (content option \<times> jsstring) option \<times> world" where
  "finalAnswerWithoutTools e [] cs w = (None, w)"
| "finalAnswerWithoutTools e (mdl # rest) cs w =
     (case fetchWithRetry e \<lparr>req_model = mdl, req_tools = False, req_contents = cs\<rparr> 1 500 w of
        (NetworkError, w1) \<Rightarrow> finalAnswerWithoutTools e rest cs w1
      | (Response status tx b, w1) \<Rightarrow>
          if \<not> ok status then finalAnswerWithoutTools e rest cs w1
          else (case b of
                  Unparsable \<Rightarrow> finalAnswerWithoutTools e rest cs w1
                | JNull \<Rightarrow> (None, w1)
                | JFalsy \<Rightarrow> (None, w1)
                | Json js \<Rightarrow> (Some (js, mdl), w1)))"

text \<open>Loop detection: the signature of the requested calls and the repeat counter.\<close>

definition workflowTools :: "jsstring list" where
  "workflowTools = [str ''searchWeb'', str ''getSearchResults'', str ''clickSearchResultByDomain'',
                    str ''extractText'', str ''waitForSelector'']"

definition isLegitimateWorkflow :: "call list \<Rightarrow> bool" where
  "isLegitimateWorkflow calls = list_ex (\<lambda>c. List.member workflowTools (call_name c)) calls"

definition repeatThreshold :: "call list \<Rightarrow> nat" where
  "repeatThreshold calls = (if isLegitimateWorkflow calls then 4 else 2)"

definition detectRepeat :: "jsstring \<Rightarrow> call list \<Rightarrow> lstate \<Rightarrow> lstate" where
  "detectRepeat callSignature calls st =
     (if calls \<noteq> [] \<and> Some callSignature = lastCallSignature st
      then st\<lparr>repeatCount := repeatCount st + 1\<rparr>
      else st\<lparr>repeatCount := 0, lastCallSignature := Some callSignature\<rparr>)"

definition stopInstruction :: content where
  "stopInstruction = userContent
     (str ''Stop calling tools. Provide the final answer concisely based on the gathered data.'')"

text \<open>
  \<open>requestToolApproval\<close>. The request shown to the user and the user's answer (or the
  expiry of the wait, after which \<open>waitForMessageOnce\<close> rejects) are events.
\<close>

definition requestToolApproval :: "env \<Rightarrow> state \<Rightarrow> call list \<Rightarrow> world \<Rightarrow> bool \<times> world" where
  "requestToolApproval e S calls w =
     (if autoApprove S then (True, w)
      else (let w1 = emit (EApprovalRequest calls) w;
                a = approval_at e (napproval w1) calls;
                w2 = emit (EApprovalResponse a) (w1\<lparr>napproval := napproval w1 + 1\<rparr>)
            in (case a of Approved \<Rightarrow> (True, w2) | Declined \<Rightarrow> (False, w2) | TimedOut \<Rightarrow> (False, w2))))"

text \<open>
  The tool calls of a round, one after the other. The number of the round is recorded
  with every execution, so that the rounds can be told apart in the trace.
\<close>

definition orElse :: "val \<Rightarrow> val \<Rightarrow> val" where
  "orElse a b = (if truthy a then a else b)"

fun executeCalls ::
  "env \<Rightarrow> int \<Rightarrow> call list \<Rightarrow> val \<Rightarrow> world \<Rightarrow> (jsstring \<times> val) list \<times> val \<times> world" where
  "executeCalls e rnd [] tab w = ([], tab, w)"
| "executeCalls e rnd (c # cs) tab w =
     (let w1 = emit (EToolStatus (call_name c)) w;
          result = tool_at e (ntool w1) (call_name c) (call_args c) tab;
          w2 = emit (EExec rnd (call_name c) (call_args c) tab) (w1\<lparr>ntool := ntool w1 + 1\<rparr>);
          newTab = orElse (get_prop result (str ''newTabId'')) (get_prop result (str ''switchedTabId''));
          tab' = (if truthy result \<and> truthy newTab then newTab else tab);
          (rest, tab'', w3) = executeCalls e rnd cs tab' w2
      in ((call_name c, result) # rest, tab'', w3))"

text \<open>
  \<open>makeFunctionResponseParts\<close>: the results are truncated one after the other;
  \<open>None\<close> is the \<open>RangeError\<close> of a truncation that does not fit the stack.
\<close>

fun makeFunctionResponseParts :: "env \<Rightarrow> (jsstring \<times> val) list \<Rightarrow> part list option" where
  "makeFunctionResponseParts e [] = Some []"
| "makeFunctionResponseParts e ((n, result) # rest) =
     (case truncateDeepWithin (stack_room e) (env_heap e) result responseLimits of
        None \<Rightarrow> None
      | Some safe \<Rightarrow>
          (case makeFunctionResponseParts e rest of
             None \<Rightarrow> None
           | Some ps \<Rightarrow>
               Some (\<lparr>ptext = None, functionCall = None, functionResponse = Some (n, safe)\<rparr> # ps)))"

text \<open>
  The second half of a round, from \<open>if (!calls.length)\<close> on: the final text when no call
  was requested, otherwise approval, execution, and the two entries pushed on the
  contents. \<open>Inl\<close> is a \<open>return\<close> (or the exception of a truncation), \<open>Inr\<close> the
  state for the next round.
\<close>

definition declinedMessage :: jsstring where
  "declinedMessage = str ''User declined requested actions.''"

definition finishRound ::
  "env \<Rightarrow> state \<Rightarrow> int \<Rightarrow> content option \<Rightarrow> jsstring \<Rightarrow> call list \<Rightarrow> lstate \<Rightarrow> world
     \<Rightarrow> (outcome + lstate) \<times> world" where
  "finishRound e S rnd candidate usedModel calls st w =
     (if calls = [] then (Inl (Answer (extractTextFromCandidate candidate) usedModel), w)
      else (let (approved, w1) = requestToolApproval e S calls w
            in if \<not> approved then (Inl (Failure declinedMessage), w1)
               else (let (results, tab, w2) = executeCalls e rnd calls (currentTabId st) w1
                     in case makeFunctionResponseParts e results of
                          None \<Rightarrow> (Inl Threw, w2)
                        | Some ps \<Rightarrow>
                            (Inr (st\<lparr>ls_contents := pushCandidate (ls_contents st) candidate
                                                      @ [\<lparr>role = str ''user'', parts = ps\<rparr>],
                                     currentTabId := tab\<rparr>), w2))))"

text \<open>
  The middle of a round, after the model has answered: loop detection, and the forced
  final answer when the same plan was repeated too often. When the forced call fails on
  every model the round goes on (the two entries pushed for it stay in the contents).
\<close>

definition repeatMessage :: jsstring where
  "repeatMessage = str ''Detected repeated tool plan; forcing a final answer without tools...''"

definition decideRound ::
  "env \<Rightarrow> state \<Rightarrow> jsstring list \<Rightarrow> int \<Rightarrow> content option \<Rightarrow> jsstring \<Rightarrow> content list
     \<Rightarrow> lstate \<Rightarrow> world \<Rightarrow> (outcome + lstate) \<times> world" where
  "decideRound e S fl rnd candidate usedModel cs st w =
     (let calls = getFunctionCallsFromCandidate e candidate;
          st1 = detectRepeat (json_stringify e calls) calls (st\<lparr>ls_contents := cs\<rparr>)
      in if repeatCount st1 \<ge> repeatThreshold calls then
           (let w3 = stream repeatMessage w;
                cs' = pushCandidate cs candidate @ [stopInstruction]
            in case finalAnswerWithoutTools e fl cs' w3 of
                 (Some (js, mdl), w4) \<Rightarrow> (Inl (Answer (extractTextFromCandidate js) mdl), w4)
               | (None, w4) \<Rightarrow>
                   finishRound e S rnd candidate usedModel calls (st1\<lparr>ls_contents := cs'\<rparr>) w4)
         else finishRound e S rnd candidate usedModel calls st1 w)"

text \<open>One iteration of \<open>for (let round = 0; round < maxRounds; round++)\<close>.\<close>

definition roundBody ::
  "env \<Rightarrow> state \<Rightarrow> jsstring list \<Rightarrow> int \<Rightarrow> lstate \<Rightarrow> world \<Rightarrow> (outcome + lstate) \<times> world" where
  "roundBody e S fl rnd st w =
     (let (cs, w1) = compressIfNeeded e S (ls_contents st) 10000 w
      in case modelCall e fl cs w1 of
           (Inl out, w2) \<Rightarrow> (Inl out, w2)
         | (Inr (candidate, usedModel), w2) \<Rightarrow>
             decideRound e S fl rnd candidate usedModel cs st w2)"

text \<open>
  The rounds. \<open>Inl\<close> is a \<open>return\<close> from inside the loop, \<open>Inr\<close> the state with which
  the loop is left when \<open>round < maxRounds\<close> fails.
\<close>

function roundsLoop ::
  "env \<Rightarrow> state \<Rightarrow> jsstring list \<Rightarrow> int \<Rightarrow> int \<Rightarrow> lstate \<Rightarrow> world \<Rightarrow> (outcome + lstate) \<times> world" where
  "roundsLoop e S fl maxRounds rnd st w =
     (if rnd < maxRounds then
        (case roundBody e S fl rnd st w of
           (Inl r, w') \<Rightarrow> (Inl r, w')
         | (Inr st', w') \<Rightarrow> roundsLoop e S fl maxRounds (rnd + 1) st' w')
      else (Inr st, w))"
  by pat_completeness auto
termination
  by (relation "measure (\<lambda>(e, S, fl, maxRounds, rnd, st, w). nat (maxRounds - rnd))") auto

declare roundsLoop.simps [simp del]

definition maxRoundsMessage :: jsstring where
  "maxRoundsMessage = str ''Tool loop exceeded max rounds''"

text \<open>After the loop: one more call without tools, then the error.\<close>

definition exhaustedMessage :: jsstring where
  "exhaustedMessage = str ''Reached max tool rounds; producing a final answer without tools...''"

definition afterRounds :: "env \<Rightarrow> jsstring list \<Rightarrow> lstate \<Rightarrow> world \<Rightarrow> outcome \<times> world" where
  "afterRounds e fl st w =
     (let w1 = stream exhaustedMessage w
      in case finalAnswerWithoutTools e fl (ls_contents st) w1 of
           (Some (js, mdl), w2) \<Rightarrow> (Answer (extractTextFromCandidate js) mdl, w2)
         | (None, w2) \<Rightarrow> (Failure maxRoundsMessage, w2))"

definition initialState :: "payload \<Rightarrow> val \<Rightarrow> lstate" where
  "initialState p tabId =
     \<lparr>ls_contents = map messageContent (p_messages p), currentTabId = tabId,
      lastCallSignature = None, repeatCount = 0\<rparr>"

definition maxRoundsOf :: "state \<Rightarrow> payload \<Rightarrow> int" where
  "maxRoundsOf S p = (case p_maxToolRounds p of Some n \<Rightarrow> n | None \<Rightarrow> maxToolRounds S)"

definition generateWithToolsLoop :: "env \<Rightarrow> state \<Rightarrow> payload \<Rightarrow> val \<Rightarrow> world \<Rightarrow> outcome \<times> world" where
  "generateWithToolsLoop e S p tabId w =
     (case roundsLoop e S (fallbackList S) (maxRoundsOf S p) 0 (initialState p tabId) w of
        (Inl r, w') \<Rightarrow> (r, w')
      | (Inr st, w') \<Rightarrow> afterRounds e (fallbackList S) st w')"


section \<open>Reading the trace\<close>

text \<open>The events a run has added to the trace.\<close>

definition newEvents :: "world \<Rightarrow> world \<Rightarrow> event list" where
  "newEvents w w' = drop (length (trace w)) (trace w')"

datatype kind = KFetch | KSleep | KStream | KApproval | KTool

fun kindOf :: "event \<Rightarrow> kind" where
  "kindOf (EFetch rq r) = KFetch"
| "kindOf (ESleep d) = KSleep"
| "kindOf (EStream t) = KStream"
| "kindOf (EApprovalRequest cs) = KApproval"
| "kindOf (EApprovalResponse a) = KApproval"
| "kindOf (EToolStatus n) = KTool"
| "kindOf (EExec r n a t) = KTool"

text \<open>\<open>grows Ks w w'\<close>: from \<open>w\<close> to \<open>w'\<close> the trace was extended by events of the kinds \<open>Ks\<close>.\<close>

definition grows :: "kind set \<Rightarrow> world \<Rightarrow> world \<Rightarrow> bool" where
  "grows Ks w w' = (\<exists>evs. trace w' = trace w @ evs \<and> kindOf ` set evs \<subseteq> Ks)"

fun execRoundOf :: "event \<Rightarrow> int option" where
  "execRoundOf (EExec r n a t) = Some r"
| "execRoundOf ev = None"

text \<open>The rounds in which a tool was executed.\<close>

definition toolRounds :: "event list \<Rightarrow> int set" where
  "toolRounds evs = set (List.map_filter execRoundOf evs)"

fun fetchOf :: "event \<Rightarrow> (request \<times> fetch_result) option" where
  "fetchOf (EFetch rq r) = Some (rq, r)"
| "fetchOf ev = None"

definition fetches :: "event list \<Rightarrow> (request \<times> fetch_result) list" where
  "fetches evs = List.map_filter fetchOf evs"

fun sleepOf :: "event \<Rightarrow> real option" where
  "sleepOf (ESleep d) = Some d"
| "sleepOf ev = None"

definition sleeps :: "event list \<Rightarrow> real list" where
  "sleeps evs = List.map_filter sleepOf evs"

fun okResult :: "fetch_result \<Rightarrow> bool" where
  "okResult (Response status tx js) = ok status"
| "okResult NetworkError = False"

text \<open>The failures \<open>fetchWithRetry\<close> retries: a network error, or status 500, 503 or 504.\<close>

fun transient :: "fetch_result \<Rightarrow> bool" where
  "transient (Response status tx js) = (status \<in> {500, 503, 504})"
| "transient NetworkError = True"

text \<open>An answer to an approval request that is not an approval: a decline, or no answer in time.\<close>

fun declined :: "event \<Rightarrow> bool" where
  "declined (EApprovalResponse a) = (a \<noteq> Approved)"
| "declined ev = False"

text \<open>
  What a run of the retry loop adds to the trace: fetches of the one request, each but
  the last a transient failure, with pauses between them that double; a transient
  failure is the result only when the retries are used up.
\<close>

definition retryRun ::
  "env \<Rightarrow> request \<Rightarrow> nat \<Rightarrow> real \<Rightarrow> nat \<Rightarrow> bool \<Rightarrow> world \<Rightarrow> fetch_result \<Rightarrow> event list \<Rightarrow> bool" where
  "retryRun e rq retries b a l w r evs =
     (kindOf ` set evs \<subseteq> {KFetch, KSleep} \<and>
      map fst (fetches evs) = replicate (length (fetches evs)) rq \<and>
      sleeps evs = map (\<lambda>k. b * 2 ^ (a + k) + random_at e (nrandom w + k) * 100)
                     [0..<length (sleeps evs)] \<and>
      length (sleeps evs) \<le> retries + 1 - a \<and>
      length (fetches evs) \<le> length (sleeps evs) + 1 \<and>
      list_all transient (butlast (map snd (fetches evs))) \<and>
      (r \<noteq> NetworkError \<longrightarrow> fetches evs \<noteq> [] \<and> snd (last (fetches evs)) = r) \<and>
      (transient r \<longrightarrow> a \<le> retries \<longrightarrow> length (sleeps evs) = retries + 1 - a
                                      \<and> length (sleeps evs) \<le> length (fetches evs)) \<and>
      (\<not> okResult r \<longrightarrow> list_all (\<lambda>x. \<not> okResult x) (map snd (fetches evs))))"

text \<open>
  The answer a response gives: the candidate of a response that is ok and whose body is
  JSON and truthy. A response is empty when it is ok and its body is falsy.
\<close>

fun answerOf :: "fetch_result \<Rightarrow> content option option" where
  "answerOf (Response status tx (Json js)) = (if ok status then Some js else None)"
| "answerOf r = None"

definition answers :: "fetch_result \<Rightarrow> bool" where
  "answers r = (answerOf r \<noteq> None)"

fun emptyBody :: "fetch_result \<Rightarrow> bool" where
  "emptyBody (Response status tx JNull) = ok status"
| "emptyBody (Response status tx JFalsy) = ok status"
| "emptyBody r = False"

text \<open>
  What the call without tools adds to the trace: every request is without tool
  declarations, carries the given contents and goes to a model of the list. When the call
  has an answer, it is the answer of the last response, which came from the model named,
  and no response before it gave an answer. When the call has no answer, no response gave
  one, and either every model of the list was tried or the last response was empty.
\<close>

definition noToolsRun ::
  "jsstring list \<Rightarrow> content list \<Rightarrow> (content option \<times> jsstring) option \<Rightarrow> event list \<Rightarrow> bool" where
  "noToolsRun fl cs res evs =
     ((\<forall>q \<in> fst ` set (fetches evs). \<not> req_tools q \<and> req_contents q = cs \<and> req_model q \<in> set fl) \<and>
      (case res of
         Some (js, m) \<Rightarrow>
           fetches evs \<noteq> [] \<and> req_model (fst (last (fetches evs))) = m \<and>
           answerOf (snd (last (fetches evs))) = Some js \<and>
           \<not> list_ex (answers \<circ> snd) (butlast (fetches evs))
       | None \<Rightarrow>
           \<not> list_ex (answers \<circ> snd) (fetches evs) \<and>
           (set fl \<subseteq> req_model ` fst ` set (fetches evs)
            \<or> (fetches evs \<noteq> [] \<and> emptyBody (snd (last (fetches evs)))))))"

text \<open>
  A refusal, if there is one among the events, is the last event, and then the result is
  the error for a declined request.
\<close>

definition declineLast :: "(outcome + lstate) \<Rightarrow> event list \<Rightarrow> bool" where
  "declineLast res evs =
     (list_ex declined evs \<longrightarrow>
        res = Inl (Failure declinedMessage) \<and> declined (last evs) \<and> \<not> list_ex declined (butlast evs))"

text \<open>
  What the rounds from \<open>lo\<close> up to (and without) \<open>hi\<close> add to the trace. When the
  rounds are left without a \<open>return\<close>, tools were executed in every one of them and no
  request was refused. When a round returns (or throws), tools were executed in the
  rounds before some round \<open>k\<close> and in no other, and the result is not the error for
  exhausted rounds. Under auto-approval (\<open>q\<close>) there is no approval event.
\<close>

definition roundsRun :: "bool \<Rightarrow> int \<Rightarrow> int \<Rightarrow> (outcome + lstate) \<Rightarrow> event list \<Rightarrow> bool" where
  "roundsRun q lo hi res evs =
     ((case res of
         Inr st \<Rightarrow> toolRounds evs = {lo..<hi} \<and> \<not> list_ex declined evs
       | Inl out \<Rightarrow> (\<exists>k. lo \<le> k \<and> k \<le> hi \<and> toolRounds evs = {lo..<k})
                     \<and> out \<noteq> Failure maxRoundsMessage) \<and>
      declineLast res evs \<and>
      (q \<longrightarrow> KApproval \<notin> kindOf ` set evs))"


section \<open>Unwrapping search-engine redirects (\<open>decodeGoogleRedirect\<close>)\<close>

text \<open>
  \<open>new URL(href, location.href)\<close> is the platform's URL parser; the function takes it as
  a parameter \<open>parseURL\<close> (\<open>None\<close> when the constructor throws). Of the parsed URL the
  function reads the host name, the path, and the query parameters, which
  \<open>URLSearchParams\<close> holds as name/value pairs that are already percent-decoded;
  \<open>searchParams.get\<close> returns the value of the first pair with the given name.
\<close>

record url =
  hostname :: jsstring
  pathname :: jsstring
  searchParams :: "(jsstring \<times> jsstring) list"

fun includesStr :: "jsstring \<Rightarrow> jsstring \<Rightarrow> bool" where
  "includesStr [] sub = (sub = [])"
| "includesStr (c # cs) sub = (prefix sub (c # cs) \<or> includesStr cs sub)"

definition startsWith :: "jsstring \<Rightarrow> jsstring \<Rightarrow> bool" where
  "startsWith s p = prefix p s"

text \<open>\<open>const v = u.searchParams.get(key); if (v) ...\<close>: the value when it is a non-empty string.\<close>

definition getParam :: "url \<Rightarrow> jsstring \<Rightarrow> jsstring option" where
  "getParam u key = (case map_of (searchParams u) key of
                       Some v \<Rightarrow> if v \<noteq> [] then Some v else None
                     | None \<Rightarrow> None)"

text \<open>
  \<open>decodeURIComponent\<close>, after the \<open>Decode\<close> operation of ECMA-262: every \<open>%XX\<close>
  escape is a byte, the bytes form UTF-8 sequences, every sequence is one code point, and
  a malformed escape or an invalid sequence throws \<open>URIError\<close> (\<open>None\<close>).
\<close>

definition hexval :: "nat \<Rightarrow> nat option" where
  "hexval c =
     (if 48 \<le> c \<and> c \<le> 57 then Some (c - 48)
      else if 65 \<le> c \<and> c \<le> 70 then Some (c - 55)
      else if 97 \<le> c \<and> c \<le> 102 then Some (c - 87)
      else None)"

datatype token = Lit nat | Byte nat

fun unescapeBytes :: "jsstring \<Rightarrow> token list option" where
  "unescapeBytes [] = Some []"
| "unescapeBytes (c # cs) =
     (if c \<noteq> 37 then map_option (Cons (Lit c)) (unescapeBytes cs)
      else (case cs of
              h1 # h2 # rest \<Rightarrow>
                (case (hexval h1, hexval h2) of
                   (Some a, Some b) \<Rightarrow> map_option (Cons (Byte (16 * a + b))) (unescapeBytes rest)
                 | _ \<Rightarrow> None)
            | _ \<Rightarrow> None))"

definition cont :: "nat \<Rightarrow> bool" where
  "cont b = (128 \<le> b \<and> b \<le> 191)"

definition utf16 :: "nat \<Rightarrow> jsstring" where
  "utf16 cp = (if cp < 65536 then [cp]
               else [55296 + (cp - 65536) div 1024, 56320 + (cp - 65536) mod 1024])"

fun utf8Decode :: "token list \<Rightarrow> jsstring option" where
  "utf8Decode [] = Some []"
| "utf8Decode (Lit c # ts) = map_option (Cons c) (utf8Decode ts)"
| "utf8Decode (Byte b # ts) =
     (if b < 128 then map_option (Cons b) (utf8Decode ts)
      else if 194 \<le> b \<and> b \<le> 223 then
        (case ts of
           Byte b2 # r \<Rightarrow>
             if cont b2 then map_option ((@) (utf16 ((b - 192) * 64 + (b2 - 128)))) (utf8Decode r)
             else None
         | _ \<Rightarrow> None)
      else if 224 \<le> b \<and> b \<le> 239 then
        (case ts of
           Byte b2 # Byte b3 # r \<Rightarrow>
             if cont b2 \<and> cont b3 \<and> (b = 224 \<longrightarrow> 160 \<le> b2) \<and> (b = 237 \<longrightarrow> b2 \<le> 159)
             then map_option ((@) (utf16 ((b - 224) * 4096 + (b2 - 128) * 64 + (b3 - 128))))
                    (utf8Decode r)
             else None
         | _ \<Rightarrow> None)
      else if 240 \<le> b \<and> b \<le> 244 then
        (case ts of
           Byte b2 # Byte b3 # Byte b4 # r \<Rightarrow>
             if cont b2 \<and> cont b3 \<and> cont b4 \<and> (b = 240 \<longrightarrow> 144 \<le> b2) \<and> (b = 244 \<longrightarrow> b2 \<le> 143)
             then map_option
                    ((@) (utf16 ((b - 240) * 262144 + (b2 - 128) * 4096 + (b3 - 128) * 64 + (b4 - 128))))
                    (utf8Decode r)
             else None
         | _ \<Rightarrow> None)
      else None)"

definition decodeURIComponent :: "jsstring \<Rightarrow> jsstring option" where
  "decodeURIComponent s = (case unescapeBytes s of None \<Rightarrow> None | Some ts \<Rightarrow> utf8Decode ts)"

text \<open>
  \<open>decodeGoogleRedirect\<close>. The three tests are tried in turn; a test that does not
  return falls through to the next, and an exception anywhere returns \<open>href\<close>.
\<close>

definition googleParam :: "url \<Rightarrow> jsstring option" where
  "googleParam u =
     (if (includesStr (hostname u) (str ''google.'') \<or> hostname u = str ''www.google.com'')
         \<and> pathname u = str ''/url''
      then (case getParam u (str ''q'') of
              Some v \<Rightarrow> Some v
            | None \<Rightarrow> (case getParam u (str ''url'') of
                          Some v \<Rightarrow> Some v
                        | None \<Rightarrow> getParam u (str ''u'')))
      else None)"

definition bingParam :: "url \<Rightarrow> jsstring option" where
  "bingParam u =
     (if includesStr (hostname u) (str ''bing.com'')
         \<and> (pathname u = str ''/aclk'' \<or> pathname u = str ''/ck/a'')
      then getParam u (str ''u'')
      else None)"

definition duckParam :: "url \<Rightarrow> jsstring option" where
  "duckParam u =
     (if includesStr (hostname u) (str ''duckduckgo.com'') \<and> startsWith (pathname u) (str ''/l'')
      then getParam u (str ''uddg'')
      else None)"

definition decodeGoogleRedirect :: "(jsstring \<Rightarrow> url option) \<Rightarrow> jsstring \<Rightarrow> jsstring" where
  "decodeGoogleRedirect parseURL href =
     (case parseURL href of
        None \<Rightarrow> href
      | Some u \<Rightarrow>
          (case googleParam u of
             Some v \<Rightarrow> v
           | None \<Rightarrow>
               (case bingParam u of
                  Some v \<Rightarrow> v
                | None \<Rightarrow>
                    (case duckParam u of
                       Some v \<Rightarrow> (case decodeURIComponent v of Some d \<Rightarrow> d | None \<Rightarrow> href)
                     | None \<Rightarrow> href))))"


section \<open>The extraction strategy ladder (\<open>extractText\<close>)\<close>

text \<open>
  One pass of the strategies of the content script's \<open>extractText\<close>. The document enters
  through what its queries yield:
  \<^item> \<open>selectorTexts\<close>: when a selector is given, the trimmed text of every visible node it
    matches;
  \<^item> \<open>semanticTexts\<close>: for each of the semantic container selectors, in order, the trimmed
    text of its first match when that is visible;
  \<^item> \<open>contentTexts\<close>: the trimmed texts of the content nodes kept after nested nodes are
    removed;
  \<^item> \<open>dynamicTexts\<close>: for each of the dynamic-content selectors, in order, the trimmed
    texts of its visible matches with more than 5 characters;
  \<^item> \<open>shadowContents\<close>: the \<open>textContent\<close> of every shadow root and same-origin frame;
  \<^item> \<open>appContents\<close>: the \<open>textContent\<close> of every visible application-root match;
  \<^item> \<open>bodyText\<close>: \<open>document.body.innerText || document.body.textContent || ''\<close>.
\<close>

record page =
  selectorTexts :: "jsstring list option"
  semanticTexts :: "jsstring option list"
  contentTexts :: "jsstring list"
  dynamicTexts :: "jsstring list list"
  shadowContents :: "jsstring list"
  appContents :: "jsstring list"
  bodyText :: jsstring

definition isWhite :: "nat \<Rightarrow> bool" where
  "isWhite c = (c \<in> {9, 10, 11, 12, 13, 32, 160, 5760, 8232, 8233, 8239, 8287, 12288, 65279}
                \<or> (8192 \<le> c \<and> c \<le> 8202))"

definition trim :: "jsstring \<Rightarrow> jsstring" where
  "trim s = rev (dropWhile isWhite (rev (dropWhile isWhite s)))"

fun splitOn :: "nat \<Rightarrow> jsstring \<Rightarrow> jsstring list" where
  "splitOn d [] = [[]]"
| "splitOn d (c # cs) =
     (if c = d then [] # splitOn d cs
      else (case splitOn d cs of
              l # ls \<Rightarrow> (c # l) # ls
            | [] \<Rightarrow> [[c]]))"

definition toLowerCase :: "jsstring \<Rightarrow> jsstring" where
  "toLowerCase s = map (\<lambda>c. if 65 \<le> c \<and> c \<le> 90 then c + 32 else c) s"

text \<open>\<open>/^(home|about|...)$/i.test(line)\<close> for a list of lower-case ASCII words.\<close>

definition matchesAny :: "jsstring list \<Rightarrow> jsstring \<Rightarrow> bool" where
  "matchesAny ws line = List.member ws (toLowerCase line)"

definition navPatterns :: "jsstring list" where
  "navPatterns = [str ''home'', str ''about'', str ''contact'', str ''menu'', str ''search'',
                  str ''login'', str ''register'', str ''sign in'', str ''sign up'']"

text \<open>The lines of the body text kept by the last strategy, joined again.\<close>

definition filterLines :: "jsstring list \<Rightarrow> jsstring \<Rightarrow> jsstring" where
  "filterLines pats body =
     join [10] (filter (\<lambda>line. \<not> length line < 10 \<and> \<not> matchesAny pats line)
                  (map trim (splitOn 10 body)))"

text \<open>Strategies 1 and 2: the selector, or the first semantic container with text.\<close>

definition strategy12 :: "page \<Rightarrow> jsstring" where
  "strategy12 pg =
     (case selectorTexts pg of
        Some ts \<Rightarrow> join [10] (filter (\<lambda>t. t \<noteq> []) ts)
      | None \<Rightarrow> (case find (\<lambda>t. t \<noteq> []) (List.map_filter id (semanticTexts pg)) of
                   Some t \<Rightarrow> t
                 | None \<Rightarrow> []))"

text \<open>Strategy 3: all meaningful content nodes.\<close>

definition strategy3 :: "page \<Rightarrow> jsstring \<Rightarrow> jsstring" where
  "strategy3 pg currentText =
     (if currentText = [] \<or> length currentText < 300 then
        (let fallbackText = join [10] (filter (\<lambda>t. length t > 10) (contentTexts pg))
         in if fallbackText \<noteq> [] \<and> length fallbackText > length currentText
            then fallbackText else currentText)
      else currentText)"

text \<open>Strategy 4: the first dynamic-content selector whose text is longer.\<close>

definition strategy4 :: "page \<Rightarrow> jsstring \<Rightarrow> jsstring" where
  "strategy4 pg currentText =
     (if currentText = [] \<or> length currentText < 200 then
        (case find (\<lambda>dynamicText. length dynamicText > length currentText)
                (map (\<lambda>ts. join [10] (filter (\<lambda>t. length t > 5) ts))
                   (filter (\<lambda>ts. ts \<noteq> []) (dynamicTexts pg))) of
           Some dynamicText \<Rightarrow> dynamicText
         | None \<Rightarrow> currentText)
      else currentText)"

text \<open>Strategies 5 and 6: shadow roots and frames; application roots.\<close>

definition gather :: "jsstring list \<Rightarrow> jsstring" where
  "gather ts = concat (map (\<lambda>t. t @ [10]) (filter (\<lambda>t. length (trim t) > 20) ts))"

definition strategy5 :: "page \<Rightarrow> jsstring \<Rightarrow> jsstring" where
  "strategy5 pg currentText =
     (if currentText = [] \<or> length currentText < 200 then
        (let shadowText = gather (shadowContents pg)
         in if length (trim shadowText) > length currentText then trim shadowText
            else currentText)
      else currentText)"

definition strategy6 :: "page \<Rightarrow> jsstring \<Rightarrow> jsstring" where
  "strategy6 pg currentText =
     (if currentText = [] \<or> length currentText < 200 then
        (let appText = gather (appContents pg)
         in if length (trim appText) > length currentText then trim appText
            else currentText)
      else currentText)"

text \<open>Strategy 7: the visible text of the body, without short and navigational lines.\<close>

definition strategy7 :: "page \<Rightarrow> jsstring \<Rightarrow> jsstring" where
  "strategy7 pg currentText =
     (if currentText = [] \<or> length currentText < 200 then
        (if length (trim (bodyText pg)) > length currentText
         then filterLines navPatterns (bodyText pg)
         else currentText)
      else currentText)"

text \<open>The running best text after each strategy, in order.\<close>

definition ladder :: "page \<Rightarrow> jsstring list" where
  "ladder pg =
     (let t2 = strategy12 pg;
          t3 = strategy3 pg t2;
          t4 = strategy4 pg t3;
          t5 = strategy5 pg t4;
          t6 = strategy6 pg t5;
          t7 = strategy7 pg t6
      in [t2, t3, t4, t5, t6, t7])"

text \<open>
  The last strategy of the sibling \<open>extractTextAllFrames\<close> (background script), which
  filters the body text in the same way with three more patterns, and compares the
  filtered text before adopting it.
\<close>

definition framePatterns :: "jsstring list" where
  "framePatterns = navPatterns @ [str ''navigation'', str ''header'', str ''footer'']"

definition frameStrategy4 :: "page \<Rightarrow> jsstring \<Rightarrow> jsstring" where
  "frameStrategy4 pg text0 =
     (if text0 = [] \<or> length text0 < 200 then
        (if length (trim (bodyText pg)) > length text0 then
           (let filteredText = filterLines framePatterns (bodyText pg)
            in if length filteredText > length text0 then filteredText else text0)
         else text0)
      else text0)"


section \<open>Concrete inputs\<close>

text \<open>The configuration with which the source initialises \<open>STATE\<close>.\<close>

definition initialSTATE :: state where
  "initialSTATE = \<lparr>st_model = str ''gemini-2.5-flash-lite'', autoApprove = True, maxToolRounds = 8\<rparr>"

text \<open>An environment in which the network is down, the user declines and tools return \<open>null\<close>.\<close>

definition offlineEnv :: env where
  "offlineEnv = \<lparr>fetch_at = (\<lambda>k rq. NetworkError), random_at = (\<lambda>k. 0),
                  approval_at = (\<lambda>k cs. Declined), tool_at = (\<lambda>k n a t. VNull),
                  json_parse = (\<lambda>s. None), json_stringify = (\<lambda>cs. concat (map call_name cs)),
                  env_heap = [], stack_room = 100\<rparr>"

text \<open>A conversation of five entries: sixty characters, then four entries of one character.\<close>

definition fiveChat :: "content list" where
  "fiveChat = [userContent (replicate 60 97), userContent (str ''b''), userContent (str ''c''),
               userContent (str ''d''), userContent (str ''e'')]"

text \<open>
  A DuckDuckGo result link whose destination is \<open>https://example.com/?q=a%26b\<close>, and the
  URL the platform parses it to.
\<close>

definition ddgHref :: jsstring where
  "ddgHref = str ''https://duckduckgo.com/l/?uddg=https%3A%2F%2Fexample.com%2F%3Fq%3Da%2526b''"

definition ddgParse :: "jsstring \<Rightarrow> url option" where
  "ddgParse href =
     (if href = ddgHref
      then Some \<lparr>hostname = str ''duckduckgo.com'', pathname = str ''/l/'',
                 searchParams = [(str ''uddg'', str ''https://example.com/?q=a%26b'')]\<rparr>
      else None)"

text \<open>
  The document \<^verbatim>\<open><p>ab<br>cd<br>ef<br>gh<br>ij</p><span>x</span>\<close>: no semantic
  container, one paragraph of 14 characters, no dynamic, shadow or application content.
\<close>

definition thinPage :: page where
  "thinPage =
     \<lparr>selectorTexts = None,
      semanticTexts = [None, None, None, None, None, None, None, None, None],
      contentTexts = [str ''ab'' @ [10] @ str ''cd'' @ [10] @ str ''ef'' @ [10] @ str ''gh'' @ [10] @ str ''ij''],
      dynamicTexts = [], shadowContents = [], appContents = [],
      bodyText = str ''ab'' @ [10] @ str ''cd'' @ [10] @ str ''ef'' @ [10] @ str ''gh'' @ [10]
                   @ str ''ij'' @ [10, 10] @ str ''x''\<rparr>"

text \<open>
  A heap with an object that refers to itself and holds a function, and an array that is
  referenced twice.
\<close>

definition cyclicHeap :: heap where
  "cyclicHeap =
     [VObj [(str ''self'', VRef 0), (str ''f'', VFun), (str ''twice'', VArr [VRef 1, VRef 1])],
      VArr []]"

definition tightLimits :: limits where
  "tightLimits = \<lparr>maxChars = 4, maxArray = 2, maxKeys = 1\<rparr>"

definition longItems :: val where
  "longItems = VArr [VStr (str ''abcdef''), VStr (str ''xy''), VNull]"


text \<open>A backend that answers every request with the status \<open>n\<close>.\<close>

definition statusEnv :: "nat \<Rightarrow> env" where
  "statusEnv n = \<lparr>fetch_at = (\<lambda>k rq. Response n (str ''unavailable'') (Json None)), random_at = (\<lambda>k. 0),
                  approval_at = (\<lambda>k cs. Declined), tool_at = (\<lambda>k n a t. VNull),
                  json_parse = (\<lambda>s. None), json_stringify = (\<lambda>cs. concat (map call_name cs)),
                  env_heap = [], stack_room = 100\<rparr>"

text \<open>A backend that answers every request with status 200 and the body \<open>b\<close>.\<close>

definition bodyEnv :: "body \<Rightarrow> env" where
  "bodyEnv b = \<lparr>fetch_at = (\<lambda>k rq. Response 200 [] b), random_at = (\<lambda>k. 0),
                 approval_at = (\<lambda>k cs. Declined), tool_at = (\<lambda>k n a t. VNull),
                 json_parse = (\<lambda>s. None), json_stringify = (\<lambda>cs. concat (map call_name cs)),
                 env_heap = [], stack_room = 100\<rparr>"

definition emptyPayload :: payload where
  "emptyPayload = \<lparr>p_messages = [], p_maxToolRounds = None\<rparr>"


text \<open>
  A model that asks for the tool \<open>click\<close> whenever tool declarations are attached, and
  a backend that gives the result \<open>fin\<close> to every request without them. The user lets
  every approval request expire.
\<close>

definition clickCall :: call where
  "clickCall = \<lparr>call_name = str ''click'', call_args = VObj []\<rparr>"

definition toolPlan :: content where
  "toolPlan = \<lparr>role = str ''model'',
               parts = [\<lparr>ptext = None, functionCall = Some clickCall, functionResponse = None\<rparr>]\<rparr>"

definition planEnv :: "fetch_result \<Rightarrow> env" where
  "planEnv fin = \<lparr>fetch_at = (\<lambda>k rq. if req_tools rq then Response 200 [] (Json (Some toolPlan)) else fin),
                  random_at = (\<lambda>k. 0), approval_at = (\<lambda>k cs. TimedOut),
                  tool_at = (\<lambda>k n a t. VNull), json_parse = (\<lambda>s. None),
                  json_stringify = (\<lambda>cs. concat (map call_name cs)), env_heap = [], stack_room = 100\<rparr>"

definition plainAnswer :: content where
  "plainAnswer = \<lparr>role = str ''model'', parts = [textPart (str ''done'')]\<rparr>"

text \<open>Configurations with one round, with and without auto-approval.\<close>

definition autoSTATE :: state where
  "autoSTATE = \<lparr>st_model = str ''gemini-2.5-flash'', autoApprove = True, maxToolRounds = 1\<rparr>"


text \<open>A configuration with three rounds and auto-approval.\<close>

definition threeSTATE :: state where
  "threeSTATE = \<lparr>st_model = str ''gemini-2.5-flash'', autoApprove = True, maxToolRounds = 3\<rparr>"

text \<open>The entry that reports the result of \<open>click\<close>.\<close>

definition clickDone :: content where
  "clickDone = \<lparr>role = str ''user'',
                 parts = [\<lparr>ptext = None, functionCall = None,
                            functionResponse = Some (str ''click'', VNull)\<rparr>]\<rparr>"

text \<open>
  A model that asks for \<open>click\<close> when the conversation is empty and for
  \<open>waitForSelector\<close> afterwards. The network is down for requests without tool
  declarations.
\<close>

definition waitCall :: call where
  "waitCall = \<lparr>call_name = str ''waitForSelector'', call_args = VObj []\<rparr>"

definition waitPlan :: content where
  "waitPlan = \<lparr>role = str ''model'',
               parts = [\<lparr>ptext = None, functionCall = Some waitCall, functionResponse = None\<rparr>]\<rparr>"

definition waitDone :: content where
  "waitDone = \<lparr>role = str ''user'',
                parts = [\<lparr>ptext = None, functionCall = None,
                           functionResponse = Some (str ''waitForSelector'', VNull)\<rparr>]\<rparr>"

definition turnEnv :: env where
  "turnEnv = \<lparr>fetch_at = (\<lambda>k rq. if req_tools rq
                                  then Response 200 []
                                         (Json (Some (if req_contents rq = [] then toolPlan else waitPlan)))
                                  else NetworkError),
               random_at = (\<lambda>k. 0), approval_at = (\<lambda>k cs. TimedOut),
               tool_at = (\<lambda>k n a t. VNull), json_parse = (\<lambda>s. None),
               json_stringify = (\<lambda>cs. concat (map call_name cs)), env_heap = [], stack_room = 100\<rparr>"


section \<open>Deep truncation: termination and the shape of the result\<close>


lemma trunc_total:
  "trunc_trunc_list_dom (Inl (h, lm, v, seen))"
  "trunc_trunc_list_dom (Inr (h, lm, vs, seen))"
  by (induct h lm v seen and h lm vs seen rule: trunc_trunc_list.induct)
     (auto intro: trunc_trunc_list.domintros)

lemma trunc_seen_mono: "seen \<subseteq> snd (trunc h lm v seen)"
  by (rule trunc_seen_mono_dom(1)) (rule trunc_total(1))

lemma trunc_list_seen_mono: "seen \<subseteq> snd (trunc_list h lm vs seen)"
  by (rule trunc_seen_mono_dom(2)) (rule trunc_total(2))

lemma trunc_list_length: "length (fst (trunc_list h lm vs seen)) = length vs"
proof (induction vs arbitrary: seen)
  case Nil
  show ?case by simp
next
  case (Cons x xs)
  obtain y s1 where a: "trunc h lm x seen = (y, s1)" by (cases "trunc h lm x seen")
  obtain ys s2 where b: "trunc_list h lm xs s1 = (ys, s2)" by (cases "trunc_list h lm xs s1")
  show ?case using Cons.IH[of s1] a b by simp
qed

subsection \<open>Decimal numerals and markers\<close>

lemma undigits_snoc: "undigits (ds @ [d]) = 10 * undigits ds + (d - 48)"
  by (simp add: undigits_def)

lemma undigits_digits: "undigits (digits n) = n"
proof (induction n rule: digits.induct)
  case (1 n)
  show ?case
  proof (cases "n < 10")
    case True
    then show ?thesis by (simp add: digits.simps[of n] undigits_def)
  next
    case False
    then show ?thesis using 1 by (simp add: digits.simps[of n] undigits_snoc)
  qed
qed

lemma markerCount_marker: "markerCount pre suf (pre @ digits n @ suf) = n"
  by (simp add: markerCount_def undigits_digits)

lemma isMarker_marker: "0 < n \<Longrightarrow> isMarker pre suf (pre @ digits n @ suf)"
  by (simp add: isMarker_def markerCount_marker)

lemma charsMarker_eq: "charsMarker n = charsPre @ digits n @ charsSuf"
  by (simp add: charsMarker_def charsPre_def charsSuf_def)

lemma itemsMarker_eq: "itemsMarker n = countPre @ digits n @ itemsSuf"
  by (simp add: itemsMarker_def countPre_def itemsSuf_def)

lemma keysMarker_eq: "keysMarker n = countPre @ digits n @ keysSuf"
  by (simp add: keysMarker_def countPre_def keysSuf_def)

subsection \<open>Assigning properties\<close>

lemma truncated_not_proto: "str ''__truncated__'' \<noteq> protoKey"
  by (simp add: protoKey_def str_def)

lemma assign_field_keys:
  "map fst (assign_field kvs k v) = (if k \<in> fst ` set kvs then map fst kvs else map fst kvs @ [k])"
  by (induction kvs) (force+)

lemma assign_field_length:
  "length (assign_field kvs k v) = (if k \<in> fst ` set kvs then length kvs else length kvs + 1)"
  by (induction kvs) (force+)

lemma assign_field_map_of: "map_of (assign_field kvs k v) k = Some v"
  by (induction kvs) auto

lemma assign_field_all_nodes:
  "all_nodes_fields P kvs \<Longrightarrow> all_nodes P v \<Longrightarrow> all_nodes_fields P (assign_field kvs k v)"
  by (induction kvs) auto

lemma assign_field_fresh: "k \<notin> fst ` set kvs \<Longrightarrow> assign_field kvs k v = kvs @ [(k, v)]"
  by (induction kvs) auto

lemma set_prop_keys:
  "map fst (set_prop kvs k v)
     = (if k = protoKey \<or> k \<in> fst ` set kvs then map fst kvs else map fst kvs @ [k])"
  by (simp add: set_prop_def assign_field_keys)

lemma set_prop_distinct: "distinct (map fst kvs) \<Longrightarrow> distinct (map fst (set_prop kvs k v))"
  by (simp add: set_prop_keys)

lemma set_prop_length: "length (set_prop kvs k v) \<le> length kvs + 1"
  by (simp add: set_prop_def assign_field_length)

lemma set_prop_map_of: "k \<noteq> protoKey \<Longrightarrow> map_of (set_prop kvs k v) k = Some v"
  by (simp add: set_prop_def assign_field_map_of)

lemma set_prop_all_nodes:
  "all_nodes_fields P kvs \<Longrightarrow> all_nodes P v \<Longrightarrow> all_nodes_fields P (set_prop kvs k v)"
  by (simp add: set_prop_def assign_field_all_nodes)

lemma set_prop_fresh:
  "k \<notin> fst ` set kvs \<Longrightarrow> k \<noteq> protoKey \<Longrightarrow> set_prop kvs k v = kvs @ [(k, v)]"
  by (simp add: set_prop_def assign_field_fresh)


lemma assign_all_nodes:
  "all_nodes_fields P acc \<Longrightarrow> all_nodes_list P (map snd kvs) \<Longrightarrow>
   all_nodes_fields P (fold (\<lambda>(k, v) out. set_prop out k v) kvs acc)"
  by (induction kvs arbitrary: acc) (auto simp: set_prop_all_nodes)

lemma assign_distinct:
  "distinct (map fst acc) \<Longrightarrow> distinct (map fst (fold (\<lambda>(k, v) out. set_prop out k v) kvs acc))"
  by (induction kvs arbitrary: acc) (auto simp: set_prop_distinct)


lemma assign_length:
  "length (fold (\<lambda>(k, v) out. set_prop out k v) kvs acc) \<le> length acc + length kvs"
proof (induction kvs arbitrary: acc)
  case Nil
  show ?case by simp
next
  case (Cons kv kvs)
  obtain k v where kv: "kv = (k, v)" by (cases kv)
  have "length (set_prop acc k v) \<le> length acc + 1" by (rule set_prop_length)
  with Cons[of "set_prop acc k v"] show ?case by (simp add: kv)
qed

lemma assign_fresh:
  "distinct (map fst (acc @ kvs)) \<Longrightarrow> protoKey \<notin> fst ` set kvs \<Longrightarrow>
   fold (\<lambda>(k, v) out. set_prop out k v) kvs acc = acc @ kvs"
proof (induction kvs arbitrary: acc)
  case Nil
  show ?case by simp
next
  case (Cons kv kvs)
  obtain k v where kv: "kv = (k, v)" by (cases kv)
  have fresh: "k \<notin> fst ` set acc" "k \<noteq> protoKey" using Cons.prems by (auto simp: kv)
  have "distinct (map fst ((acc @ [(k, v)]) @ kvs))" using Cons.prems by (simp add: kv)
  from Cons.IH[OF this] Cons.prems(2) show ?case by (simp add: kv set_prop_fresh[OF fresh])
qed

subsection \<open>Nested values\<close>

lemma all_nodes_list_append:
  "all_nodes_list P (xs @ ys) = (all_nodes_list P xs \<and> all_nodes_list P ys)"
  by (induction xs) auto

lemma all_nodes_list_take: "all_nodes_list P xs \<Longrightarrow> all_nodes_list P (take n xs)"
  by (induction xs arbitrary: n) (auto simp: take_Cons split: nat.splits)

lemma all_nodes_list_nth: "all_nodes_list P xs \<Longrightarrow> i < length xs \<Longrightarrow> all_nodes P (xs ! i)"
  by (induction xs arbitrary: i) (auto simp: nth_Cons split: nat.splits)

lemma all_nodes_fields_snd: "all_nodes_fields P kvs = all_nodes_list P (map snd kvs)"
  by (induction kvs) auto

lemma all_nodes_top: "all_nodes P v \<Longrightarrow> P v"
  by (cases v) auto


subsection \<open>The result is plain data\<close>

lemma plainNode_simps:
  "plainNode VNull" "plainNode VUndefined" "plainNode (VStr s)" "plainNode (VNum n)"
  "plainNode (VBool b)" "\<not> plainNode VFun" "\<not> plainNode (VOther s)" "\<not> plainNode (VRef a)"
  "plainNode (VArr xs)" "plainNode (VObj kvs) = distinct (map fst kvs)"
  by (simp_all add: plainNode_def)

lemma notOther_simps:
  "notOther VNull" "notOther VUndefined" "notOther (VStr s)" "notOther (VNum n)"
  "notOther (VBool b)" "notOther VFun" "\<not> notOther (VOther s)" "notOther (VRef a)"
  "notOther (VArr xs)" "notOther (VObj kvs)"
  by (simp_all add: notOther_def)


lemma fitsMarked_simps:
  "fitsMarked lm VNull" "fitsMarked lm VUndefined" "fitsMarked lm (VNum n)" "fitsMarked lm (VBool b)"
  "fitsMarked lm (VStr s) = (length s \<le> maxChars lm
      \<or> isMarker charsPre charsSuf (drop (maxChars lm) s) \<or> isNote s)"
  "fitsMarked lm (VArr xs) = (length xs \<le> maxArray lm
      \<or> (length xs = maxArray lm + 1
          \<and> (case last xs of VStr s \<Rightarrow> isMarker countPre itemsSuf s | _ \<Rightarrow> False)))"
  "fitsMarked lm (VObj kvs) = (length kvs \<le> maxKeys lm
      \<or> (length kvs = maxKeys lm + 1
          \<and> (case map_of kvs (str ''__truncated__'') of
                Some (VStr s) \<Rightarrow> isMarker countPre keysSuf s
              | _ \<Rightarrow> False)))"
  by (simp_all add: fitsMarked_def)

lemma zip_snd_same: "length ks = length vs \<Longrightarrow> map snd (zip ks vs) = vs"
  by (induction ks vs rule: list_induct2) auto

lemma trunc_obj_fields:
  assumes "trunc_list h lm (map snd (take (maxKeys lm) kvs)) seen = (vs, seen')"
  shows "map snd (zip (take (maxKeys lm) (map fst kvs)) vs) = vs"
proof -
  have "length vs = length (map snd (take (maxKeys lm) kvs))"
    using trunc_list_length[of h lm "map snd (take (maxKeys lm) kvs)" seen] assms by simp
  then show ?thesis by (intro zip_snd_same) (simp add: take_map)
qed

lemma trunc_plain:
  "all_nodes plainNode (fst (trunc h lm v seen))"
  "all_nodes_list plainNode (fst (trunc_list h lm vs seen))"
proof (induct h lm v seen and h lm vs seen rule: trunc_trunc_list.induct)
  case (7 h lm a seen)
  then show ?case by (simp add: plainNode_simps)
next
  case (8 h lm xs seen)
  obtain out seen' where o: "trunc_list h lm (take (maxArray lm) xs) seen = (out, seen')"
    by (cases "trunc_list h lm (take (maxArray lm) xs) seen")
  have "all_nodes_list plainNode out" using 8 o by simp
  then show ?case using o by (simp add: plainNode_simps all_nodes_list_append)
next
  case (9 h lm kvs seen)
  obtain vs seen' where o: "trunc_list h lm (map snd (take (maxKeys lm) kvs)) seen = (vs, seen')"
    by (cases "trunc_list h lm (map snd (take (maxKeys lm) kvs)) seen")
  let ?out = "fold (\<lambda>(k, v) out. set_prop out k v) (zip (take (maxKeys lm) (map fst kvs)) vs) []"
  have vs: "all_nodes_list plainNode vs" using 9[OF refl] o by simp
  have f: "all_nodes_fields plainNode ?out"
    by (rule assign_all_nodes) (simp_all add: trunc_obj_fields[OF o] vs)
  have d: "distinct (map fst ?out)" by (rule assign_distinct) simp
  show ?case
  proof (cases "maxKeys lm < length kvs")
    case True
    then show ?thesis using o f d
      by (simp add: Let_def plainNode_simps set_prop_all_nodes set_prop_distinct)
  next
    case False
    then show ?thesis using o f d by (simp add: Let_def plainNode_simps)
  qed
next
  case (12 h lm x xs seen)
  obtain y s1 where a: "trunc h lm x seen = (y, s1)" by (cases "trunc h lm x seen")
  obtain ys s2 where b: "trunc_list h lm xs s1 = (ys, s2)" by (cases "trunc_list h lm xs s1")
  show ?case using "12.hyps"(1) "12.hyps"(2)[OF refl a[symmetric]] a b by simp
qed (simp_all add: plainNode_simps)

subsection \<open>The result respects the limits, markers counted in\<close>

lemma fitsMarked_string:
  "fitsMarked lm (VStr (if maxChars lm < length s
                        then take (maxChars lm) s @ charsMarker (length s - maxChars lm) else s))"
proof (cases "maxChars lm < length s")
  case True
  then have "isMarker charsPre charsSuf (charsMarker (length s - maxChars lm))"
    unfolding charsMarker_eq by (intro isMarker_marker) simp
  then show ?thesis using True by (simp add: fitsMarked_simps)
next
  case False
  then show ?thesis by (simp add: fitsMarked_simps)
qed

lemma isNote_items: "0 < n \<Longrightarrow> isNote (itemsMarker n)"
  unfolding itemsMarker_eq isNote_def by (simp add: isMarker_marker)

lemma isNote_keys: "0 < n \<Longrightarrow> isNote (keysMarker n)"
  unfolding keysMarker_eq isNote_def by (simp add: isMarker_marker)

lemma trunc_bounded:
  "all_nodes notOther v \<Longrightarrow> all_nodes_list notOther h \<Longrightarrow>
   all_nodes (\<lambda>x. plainNode x \<and> fitsMarked lm x) (fst (trunc h lm v seen))"
  "all_nodes_list notOther vs \<Longrightarrow> all_nodes_list notOther h \<Longrightarrow>
   all_nodes_list (\<lambda>x. plainNode x \<and> fitsMarked lm x) (fst (trunc_list h lm vs seen))"
proof (induct h lm v seen and h lm vs seen rule: trunc_trunc_list.induct)
  case (3 h lm s seen)
  show ?case using fitsMarked_string[of lm s] by (simp add: plainNode_simps)
next
  case (6 h lm seen)
  show ?case by (simp add: plainNode_simps fitsMarked_simps isNote_def)
next
  case (7 h lm a seen)
  show ?case
  proof (cases "a \<in> seen")
    case True
    then show ?thesis by (simp add: plainNode_simps fitsMarked_simps isNote_def)
  next
    case False
    show ?thesis
    proof (cases "a < length h")
      case True
      have "all_nodes notOther (h ! a)" using "7.prems"(2) True by (rule all_nodes_list_nth)
      then show ?thesis using 7 False True by simp
    next
      case nope: False
      then show ?thesis using False by (simp add: plainNode_simps fitsMarked_simps)
    qed
  qed
next
  case (8 h lm xs seen)
  obtain out seen' where o: "trunc_list h lm (take (maxArray lm) xs) seen = (out, seen')"
    by (cases "trunc_list h lm (take (maxArray lm) xs) seen")
  have "all_nodes_list notOther (take (maxArray lm) xs)"
    using "8.prems"(1) by (simp add: all_nodes_list_take)
  then have out: "all_nodes_list (\<lambda>x. plainNode x \<and> fitsMarked lm x) out"
    using "8.hyps" "8.prems"(2) o by simp
  have len: "length out = min (length xs) (maxArray lm)"
    using trunc_list_length[of h lm "take (maxArray lm) xs" seen] o by simp
  show ?case
  proof (cases "maxArray lm < length xs")
    case True
    have m: "isMarker countPre itemsSuf (itemsMarker (length xs - maxArray lm))"
      unfolding itemsMarker_eq using True by (intro isMarker_marker) simp
    have n: "fitsMarked lm (VStr (itemsMarker (length xs - maxArray lm)))"
      using True by (simp add: fitsMarked_simps isNote_items)
    show ?thesis using True o out len m n
      by (simp add: plainNode_simps all_nodes_list_append fitsMarked_simps)
  next
    case False
    then show ?thesis using o out len by (simp add: plainNode_simps fitsMarked_simps)
  qed
next
  case (9 h lm kvs seen)
  obtain vs seen' where o: "trunc_list h lm (map snd (take (maxKeys lm) kvs)) seen = (vs, seen')"
    by (cases "trunc_list h lm (map snd (take (maxKeys lm) kvs)) seen")
  let ?P = "\<lambda>x. plainNode x \<and> fitsMarked lm x"
  let ?out = "fold (\<lambda>(k, v) out. set_prop out k v) (zip (take (maxKeys lm) (map fst kvs)) vs) []"
  have "all_nodes_list notOther (map snd (take (maxKeys lm) kvs))"
    using "9.prems"(1) by (simp add: all_nodes_fields_snd take_map[symmetric] all_nodes_list_take)
  then have vs: "all_nodes_list ?P vs" using "9.hyps"[OF refl] "9.prems"(2) o by simp
  have f: "all_nodes_fields ?P ?out"
    by (rule assign_all_nodes) (simp_all add: trunc_obj_fields[OF o] vs)
  have d: "distinct (map fst ?out)" by (rule assign_distinct) simp
  have lvs: "length vs = min (length kvs) (maxKeys lm)"
    using trunc_list_length[of h lm "map snd (take (maxKeys lm) kvs)" seen] o by simp
  have l: "length ?out \<le> min (length kvs) (maxKeys lm)"
    using assign_length[of "zip (take (maxKeys lm) (map fst kvs)) vs" "[]"] lvs by simp
  show ?case
  proof (cases "maxKeys lm < length kvs")
    case True
    let ?m = "VStr (keysMarker (length kvs - maxKeys lm))"
    let ?res = "set_prop ?out (str ''__truncated__'') ?m"
    have mk: "isMarker countPre keysSuf (keysMarker (length kvs - maxKeys lm))"
      unfolding keysMarker_eq using True by (intro isMarker_marker) simp
    have n: "all_nodes ?P ?m" using True by (simp add: plainNode_simps fitsMarked_simps isNote_keys)
    have f': "all_nodes_fields ?P ?res" using f n by (rule set_prop_all_nodes)
    have d': "distinct (map fst ?res)" using d by (rule set_prop_distinct)
    have l': "length ?res \<le> maxKeys lm + 1"
      using l set_prop_length[of ?out "str ''__truncated__''" ?m] by simp
    have "fitsMarked lm (VObj ?res)"
      using l' mk by (auto simp: fitsMarked_simps set_prop_map_of[OF truncated_not_proto])
    then show ?thesis using True o f' d' by (simp add: Let_def plainNode_simps)
  next
    case False
    have "fitsMarked lm (VObj ?out)" using l by (simp add: fitsMarked_simps)
    then show ?thesis using False o f d by (simp add: Let_def plainNode_simps)
  qed
next
  case (10 h lm s seen)
  then show ?case by (simp add: notOther_simps)
next
  case (12 h lm x xs seen)
  obtain y s1 where a: "trunc h lm x seen = (y, s1)" by (cases "trunc h lm x seen")
  obtain ys s2 where b: "trunc_list h lm xs s1 = (ys, s2)" by (cases "trunc_list h lm xs s1")
  show ?case using "12.hyps"(1) "12.hyps"(2)[OF refl a[symmetric]] "12.prems" a b by simp
qed (simp_all add: plainNode_simps fitsMarked_simps)


subsection \<open>Values within the limits are left as they are\<close>

lemma fits_simps:
  "fits lm VNull" "fits lm VUndefined" "fits lm (VNum n)" "fits lm (VBool b)" "fits lm VFun"
  "fits lm (VOther s)" "fits lm (VRef a)"
  "fits lm (VStr s) = (length s \<le> maxChars lm)"
  "fits lm (VArr xs) = (length xs \<le> maxArray lm)"
  "fits lm (VObj kvs) = (length kvs \<le> maxKeys lm)"
  by (simp_all add: fits_def)




subsection \<open>Truncation on a bounded stack\<close>

lemma truncWithin_sound:
  "truncWithin d h lm v seen = Some r \<Longrightarrow> r = trunc h lm v seen"
  "truncWithin_list d h lm vs seen = Some rs \<Longrightarrow> rs = trunc_list h lm vs seen"
proof (induct d h lm v seen and d h lm vs seen arbitrary: r and rs
       rule: truncWithin_truncWithin_list.induct)
  case (8 d h lm a seen)
  then show ?case by (auto split: if_splits)
next
  case (9 d h lm xs seen)
  then show ?case by (auto split: option.splits prod.splits)
next
  case (10 d h lm kvs seen)
  then show ?case by (auto simp: Let_def split: option.splits prod.splits)
next
  case (13 d h lm x xs seen)
  then show ?case by (fastforce split: option.splits prod.splits)
qed auto

lemma truncWithin_Suc:
  "truncWithin d h lm v seen = Some r \<Longrightarrow> truncWithin (Suc d) h lm v seen = Some r"
  "truncWithin_list d h lm vs seen = Some rs \<Longrightarrow> truncWithin_list (Suc d) h lm vs seen = Some rs"
proof (induct d h lm v seen and d h lm vs seen arbitrary: r and rs
       rule: truncWithin_truncWithin_list.induct)
  case (8 d h lm a seen)
  then show ?case by (auto split: if_splits)
next
  case (9 d h lm xs seen)
  then show ?case by (auto split: option.splits prod.splits)
next
  case (10 d h lm kvs seen)
  then show ?case by (auto simp: Let_def split: option.splits prod.splits)
next
  case (13 d h lm x xs seen)
  then show ?case by (fastforce split: option.splits prod.splits)
qed auto

lemma truncWithin_mono:
  assumes "d \<le> d'"
  shows "truncWithin d h lm v seen = Some r \<Longrightarrow> truncWithin d' h lm v seen = Some r"
    and "truncWithin_list d h lm vs seen = Some rs \<Longrightarrow> truncWithin_list d' h lm vs seen = Some rs"
  using assms by (induction rule: dec_induct) (auto simp: truncWithin_Suc)

lemma truncWithin_enough:
  "\<exists>d. truncWithin d h lm v seen = Some (trunc h lm v seen)"
  "\<exists>d. truncWithin_list d h lm vs seen = Some (trunc_list h lm vs seen)"
proof (induct h lm v seen and h lm vs seen rule: trunc_trunc_list.induct)
  case (1 h lm seen)
  show ?case by (rule exI[of _ 1]) simp
next
  case (2 h lm seen)
  show ?case by (rule exI[of _ 1]) simp
next
  case (3 h lm s seen)
  show ?case by (rule exI[of _ 1]) simp
next
  case (4 h lm n seen)
  show ?case by (rule exI[of _ 1]) simp
next
  case (5 h lm b seen)
  show ?case by (rule exI[of _ 1]) simp
next
  case (6 h lm seen)
  show ?case by (rule exI[of _ 1]) simp
next
  case (7 h lm a seen)
  show ?case
  proof (cases "a \<in> seen")
    case True
    then show ?thesis by (intro exI[of _ 1]) simp
  next
    case False
    show ?thesis
    proof (cases "a < length h")
      case True
      obtain d where d: "truncWithin d h lm (h ! a) (insert a seen) = Some (trunc h lm (h ! a) (insert a seen))"
        using 7 False True by blast
      then obtain d' where "d = Suc d'" by (cases d) auto
      then show ?thesis using d False True by (intro exI[of _ "Suc d'"]) simp
    next
      case nope: False
      then show ?thesis using False by (intro exI[of _ 1]) simp
    qed
  qed
next
  case (8 h lm xs seen)
  obtain d where d: "truncWithin_list d h lm (take (maxArray lm) xs) seen
                       = Some (trunc_list h lm (take (maxArray lm) xs) seen)"
    using 8 by blast
  show ?case using d by (intro exI[of _ "Suc d"]) (simp split: prod.splits)
next
  case (9 h lm kvs seen)
  obtain d where d: "truncWithin_list d h lm (map snd (take (maxKeys lm) kvs)) seen
                       = Some (trunc_list h lm (map snd (take (maxKeys lm) kvs)) seen)"
    using 9[OF refl] by blast
  show ?case using d by (intro exI[of _ "Suc d"]) (simp add: Let_def split: prod.splits)
next
  case (10 h lm s seen)
  show ?case by (rule exI[of _ 1]) simp
next
  case (11 h lm seen)
  show ?case by simp
next
  case (12 h lm x xs seen)
  obtain y s1 where a: "trunc h lm x seen = (y, s1)" by (cases "trunc h lm x seen")
  obtain ys s2 where b: "trunc_list h lm xs s1 = (ys, s2)" by (cases "trunc_list h lm xs s1")
  obtain d1 where d1: "truncWithin d1 h lm x seen = Some (y, s1)" using "12.hyps"(1) a by auto
  obtain d2 where d2: "truncWithin_list d2 h lm xs s1 = Some (ys, s2)"
    using "12.hyps"(2)[OF refl a[symmetric]] b by auto
  have "truncWithin (max d1 d2) h lm x seen = Some (y, s1)"
    using truncWithin_mono(1)[OF _ d1, of "max d1 d2"] by simp
  moreover have "truncWithin_list (max d1 d2) h lm xs s1 = Some (ys, s2)"
    using truncWithin_mono(2)[OF _ d2, of "max d1 d2"] by simp
  ultimately show ?case using a b by (intro exI[of _ "max d1 d2"]) simp
qed

lemma nested_overflow:
  "0 < maxArray lm \<Longrightarrow> truncWithin d h lm (nested d) seen = None"
proof (induction d arbitrary: seen)
  case 0
  show ?case by simp
next
  case (Suc d)
  then show ?case by (cases "maxArray lm") auto
qed

lemma nested_fits:
  "0 < maxArray lm \<Longrightarrow> truncWithin (Suc d) h lm (nested d) seen = Some (nested d, seen)"
proof (induction d arbitrary: seen)
  case 0
  show ?case by simp
next
  case (Suc d)
  then show ?case by (cases "maxArray lm") auto
qed

subsection \<open>Every object is copied at most once\<close>

lemma heapContainers_insert:
  assumes "a < length h" and "a \<notin> seen"
  shows "heapContainers h seen = containers (h ! a) + heapContainers h (insert a seen)"
proof -
  have eq: "{..<length h} - seen = insert a ({..<length h} - insert a seen)"
    using assms by auto
  show ?thesis unfolding heapContainers_def
    by (subst eq) (simp add: sum.insert)
qed

lemma containers_list_take: "containers_list (take n xs) \<le> containers_list xs"
  by (induction xs arbitrary: n) (auto simp: take_Cons split: nat.splits intro: le_SucI trans_le_add2)

lemma containers_list_append: "containers_list (xs @ ys) = containers_list xs + containers_list ys"
  by (induction xs) auto

lemma containers_fields_snd: "containers_fields kvs = containers_list (map snd kvs)"
  by (induction kvs) auto

lemma containers_assign_field:
  "containers_fields (assign_field kvs k v) \<le> containers_fields kvs + containers v"
  by (induction kvs) auto

lemma containers_set_prop:
  "containers_fields (set_prop kvs k v) \<le> containers_fields kvs + containers v"
  using containers_assign_field[of kvs k v] by (simp add: set_prop_def)

lemma containers_assign:
  "containers_fields (fold (\<lambda>(k, v) out. set_prop out k v) kvs acc)
     \<le> containers_fields acc + containers_list (map snd kvs)"
proof (induction kvs arbitrary: acc)
  case Nil
  show ?case by simp
next
  case (Cons kv kvs)
  obtain k v where kv: "kv = (k, v)" by (cases kv)
  have "containers_fields (fold (\<lambda>(k, v) out. set_prop out k v) kvs (set_prop acc k v))
          \<le> containers_fields (set_prop acc k v) + containers_list (map snd kvs)"
    by (rule Cons.IH)
  also have "\<dots> \<le> containers_fields acc + containers v + containers_list (map snd kvs)"
    using containers_set_prop[of acc k v] by simp
  finally show ?case by (simp add: kv)
qed

lemma trunc_copies:
  "containers (fst (trunc h lm v seen)) + heapContainers h (snd (trunc h lm v seen))
     \<le> containers v + heapContainers h seen"
  "containers_list (fst (trunc_list h lm vs seen)) + heapContainers h (snd (trunc_list h lm vs seen))
     \<le> containers_list vs + heapContainers h seen"
proof (induct h lm v seen and h lm vs seen rule: trunc_trunc_list.induct)
  case (7 h lm a seen)
  show ?case
  proof (cases "a \<in> seen")
    case True
    then show ?thesis by simp
  next
    case False
    show ?thesis
    proof (cases "a < length h")
      case True
      have "containers (fst (trunc h lm (h ! a) (insert a seen)))
              + heapContainers h (snd (trunc h lm (h ! a) (insert a seen)))
            \<le> containers (h ! a) + heapContainers h (insert a seen)"
        using 7 False True by simp
      then show ?thesis using False True heapContainers_insert[OF True False] by simp
    next
      case nope: False
      then show ?thesis using False by simp
    qed
  qed
next
  case (8 h lm xs seen)
  obtain out seen' where o: "trunc_list h lm (take (maxArray lm) xs) seen = (out, seen')"
    by (cases "trunc_list h lm (take (maxArray lm) xs) seen")
  have "containers_list out + heapContainers h seen'
          \<le> containers_list (take (maxArray lm) xs) + heapContainers h seen"
    using 8 o by simp
  then have "containers_list out + heapContainers h seen' \<le> containers_list xs + heapContainers h seen"
    using containers_list_take[of "maxArray lm" xs] by simp
  then show ?case using o by (simp add: containers_list_append)
next
  case (9 h lm kvs seen)
  obtain vs seen' where o: "trunc_list h lm (map snd (take (maxKeys lm) kvs)) seen = (vs, seen')"
    by (cases "trunc_list h lm (map snd (take (maxKeys lm) kvs)) seen")
  let ?out = "fold (\<lambda>(k, v) out. set_prop out k v) (zip (take (maxKeys lm) (map fst kvs)) vs) []"
  let ?m = "VStr (keysMarker (length kvs - maxKeys lm))"
  have ih: "containers_list vs + heapContainers h seen'
          \<le> containers_list (map snd (take (maxKeys lm) kvs)) + heapContainers h seen"
    using 9[OF refl] o by simp
  have "containers_list (map snd (take (maxKeys lm) kvs)) \<le> containers_fields kvs"
    using containers_list_take[of "maxKeys lm" "map snd kvs"]
    by (simp add: containers_fields_snd take_map)
  then have a: "containers_list vs + heapContainers h seen' \<le> containers_fields kvs + heapContainers h seen"
    using ih by simp
  have b: "containers_fields ?out \<le> containers_list vs"
    using containers_assign[of "zip (take (maxKeys lm) (map fst kvs)) vs" "[]"]
    by (simp add: trunc_obj_fields[OF o])
  have c: "containers_fields (set_prop ?out (str ''__truncated__'') ?m) \<le> containers_list vs"
    using containers_set_prop[of ?out "str ''__truncated__''" ?m] b by simp
  show ?case
  proof (cases "maxKeys lm < length kvs")
    case True
    then show ?thesis using o a c by (simp add: Let_def)
  next
    case False
    have "fst (trunc h lm (VObj kvs) seen) = VObj ?out" "snd (trunc h lm (VObj kvs) seen) = seen'"
      using False o by (simp_all add: Let_def)
    then show ?thesis using a b by simp
  qed
next
  case (12 h lm x xs seen)
  obtain y s1 where a: "trunc h lm x seen = (y, s1)" by (cases "trunc h lm x seen")
  obtain ys s2 where b: "trunc_list h lm xs s1 = (ys, s2)" by (cases "trunc_list h lm xs s1")
  have 1: "containers y + heapContainers h s1 \<le> containers x + heapContainers h seen"
    using "12.hyps"(1) a by simp
  have 2: "containers_list ys + heapContainers h s2 \<le> containers_list xs + heapContainers h s1"
    using "12.hyps"(2)[OF refl a[symmetric]] b by simp
  show ?case using 1 2 a b by simp
qed simp_all

subsection \<open>A reference met for the second time\<close>

lemma trunc_list_append:
  "trunc_list h lm (as @ bs) seen =
     (fst (trunc_list h lm as seen) @ fst (trunc_list h lm bs (snd (trunc_list h lm as seen))),
      snd (trunc_list h lm bs (snd (trunc_list h lm as seen))))"
proof (induction as arbitrary: seen)
  case Nil
  show ?case by simp
next
  case (Cons x as)
  show ?case by (simp add: Cons.IH split: prod.splits)
qed

lemma keptRefs_list_all: "keptRefs_list lm n xs = keptRefs_list lm (length (take n xs)) (take n xs)"
proof (induction xs arbitrary: n)
  case Nil
  show ?case by simp
next
  case (Cons x xs)
  show ?case using Cons.IH by (cases n) simp_all
qed

lemma keptRefs_fields_list: "keptRefs_fields lm n kvs = keptRefs_list lm n (map snd kvs)"
proof (induction kvs arbitrary: n)
  case Nil
  show ?case by simp
next
  case (Cons kv kvs)
  show ?case using Cons.IH by (cases n) simp_all
qed

lemma trunc_visits:
  "keptRefs lm v \<inter> {..<length h} \<subseteq> snd (trunc h lm v seen)"
  "keptRefs_list lm (length vs) vs \<inter> {..<length h} \<subseteq> snd (trunc_list h lm vs seen)"
proof (induct h lm v seen and h lm vs seen rule: trunc_trunc_list.induct)
  case (7 h lm a seen)
  show ?case using trunc_seen_mono[of "insert a seen" h lm "h ! a"] by auto
next
  case (8 h lm xs seen)
  obtain out seen' where o: "trunc_list h lm (take (maxArray lm) xs) seen = (out, seen')"
    by (cases "trunc_list h lm (take (maxArray lm) xs) seen")
  show ?case using 8 o keptRefs_list_all[of lm "maxArray lm" xs] by simp
next
  case (9 h lm kvs seen)
  obtain vs seen' where o: "trunc_list h lm (map snd (take (maxKeys lm) kvs)) seen = (vs, seen')"
    by (cases "trunc_list h lm (map snd (take (maxKeys lm) kvs)) seen")
  have "keptRefs_fields lm (maxKeys lm) kvs
          = keptRefs_list lm (length (map snd (take (maxKeys lm) kvs))) (map snd (take (maxKeys lm) kvs))"
    using keptRefs_list_all[of lm "maxKeys lm" "map snd kvs"]
    by (simp add: keptRefs_fields_list take_map)
  then show ?case using 9[OF refl] o by (simp add: Let_def)
next
  case (12 h lm x xs seen)
  obtain y s1 where a: "trunc h lm x seen = (y, s1)" by (cases "trunc h lm x seen")
  obtain ys s2 where b: "trunc_list h lm xs s1 = (ys, s2)" by (cases "trunc_list h lm xs s1")
  have 1: "keptRefs lm x \<inter> {..<length h} \<subseteq> s1" using "12.hyps"(1) a by simp
  have 2: "keptRefs_list lm (length xs) xs \<inter> {..<length h} \<subseteq> s2"
    using "12.hyps"(2)[OF refl a[symmetric]] b by simp
  have 3: "s1 \<subseteq> s2" using trunc_list_seen_mono[of s1 h lm xs] b by simp
  show ?case using 1 2 3 a b by auto
qed simp_all

lemma keptRefs_list_take: "i \<le> length vs \<Longrightarrow> keptRefs_list lm i vs = keptRefs_list lm (length (take i vs)) (take i vs)"
  by (rule keptRefs_list_all)

lemma trunc_list_second:
  assumes "i < length vs" and "vs ! i = VRef a"
    and "a \<in> seen \<or> (a < length h \<and> a \<in> keptRefs_list lm i vs)"
  shows "fst (trunc_list h lm vs seen) ! i = VStr (str ''[circular]'')"
proof -
  let ?s1 = "snd (trunc_list h lm (take i vs) seen)"
  have split: "vs = take i vs @ VRef a # drop (Suc i) vs"
    using assms(1,2) by (metis id_take_nth_drop)
  have in1: "a \<in> ?s1"
  proof (cases "a \<in> seen")
    case True
    then show ?thesis using trunc_list_seen_mono[of seen h lm "take i vs"] by auto
  next
    case False
    then have "a < length h" "a \<in> keptRefs_list lm (length (take i vs)) (take i vs)"
      using assms(3) keptRefs_list_all[of lm i vs] by auto
    then show ?thesis using trunc_visits(2)[of lm "take i vs" h seen] by auto
  qed
  have len: "length (fst (trunc_list h lm (take i vs) seen)) = i"
    using trunc_list_length[of h lm "take i vs" seen] assms(1) by simp
  have "fst (trunc_list h lm vs seen)
          = fst (trunc_list h lm (take i vs) seen)
            @ fst (trunc_list h lm (VRef a # drop (Suc i) vs) ?s1)"
    by (subst split) (simp add: trunc_list_append)
  then have "fst (trunc_list h lm vs seen) ! i = fst (trunc_list h lm (VRef a # drop (Suc i) vs) ?s1) ! 0"
    using len by (simp add: nth_append)
  also have "\<dots> = VStr (str ''[circular]'')" using in1 by (simp split: prod.splits)
  finally show ?thesis .
qed

lemma trunc_list_function:
  assumes "i < length vs" and "vs ! i = VFun"
  shows "fst (trunc_list h lm vs seen) ! i = VStr (str ''[function]'')"
proof -
  let ?s1 = "snd (trunc_list h lm (take i vs) seen)"
  have split: "vs = take i vs @ VFun # drop (Suc i) vs"
    using assms(1,2) by (metis id_take_nth_drop)
  have len: "length (fst (trunc_list h lm (take i vs) seen)) = i"
    using trunc_list_length[of h lm "take i vs" seen] assms(1) by simp
  have "fst (trunc_list h lm vs seen)
          = fst (trunc_list h lm (take i vs) seen)
            @ fst (trunc_list h lm (VFun # drop (Suc i) vs) ?s1)"
    by (subst split) (simp add: trunc_list_append)
  then have "fst (trunc_list h lm vs seen) ! i = fst (trunc_list h lm (VFun # drop (Suc i) vs) ?s1) ! 0"
    using len by (simp add: nth_append)
  also have "\<dots> = VStr (str ''[function]'')" by (simp split: prod.splits)
  finally show ?thesis .
qed

lemma keptRefs_list_prefix: "i \<le> n \<Longrightarrow> keptRefs_list lm i (take n xs) = keptRefs_list lm i xs"
proof (induction xs arbitrary: i n)
  case Nil
  show ?case by simp
next
  case (Cons x xs)
  show ?case
  proof (cases i)
    case 0
    then show ?thesis by (cases n) simp_all
  next
    case (Suc j)
    then obtain m where n: "n = Suc m" using Cons.prems by (cases n) auto
    then show ?thesis using Suc Cons.IH[of j m] Cons.prems by simp
  qed
qed

lemma trunc_array_second:
  assumes "i < length xs" and "i < maxArray lm" and "xs ! i = VRef a"
    and "a \<in> seen \<or> (a < length h \<and> a \<in> keptRefs_list lm i xs)"
  shows "arrayItems (fst (trunc h lm (VArr xs) seen)) ! i = VStr (str ''[circular]'')"
proof -
  let ?vs = "take (maxArray lm) xs"
  have 1: "i < length ?vs" "?vs ! i = VRef a" using assms(1,2,3) by simp_all
  have 2: "a \<in> seen \<or> (a < length h \<and> a \<in> keptRefs_list lm i ?vs)"
    using assms(2,4) by (simp add: keptRefs_list_prefix)
  have c: "fst (trunc_list h lm ?vs seen) ! i = VStr (str ''[circular]'')"
    using 1 2 by (rule trunc_list_second)
  have len: "i < length (fst (trunc_list h lm ?vs seen))"
    using trunc_list_length[of h lm ?vs seen] 1 by simp
  obtain out seen' where o: "trunc_list h lm ?vs seen = (out, seen')"
    by (cases "trunc_list h lm ?vs seen")
  have "out ! i = VStr (str ''[circular]'')" "i < length out" using c len o by simp_all
  then show ?thesis using o by (simp add: nth_append)
qed

lemma assign_field_nth:
  "i < length kvs \<Longrightarrow> fst (kvs ! i) \<noteq> k \<Longrightarrow> assign_field kvs k v ! i = kvs ! i"
proof (induction kvs arbitrary: i)
  case Nil
  then show ?case by simp
next
  case (Cons kv kvs)
  obtain k' v' where kv: "kv = (k', v')" by (cases kv)
  show ?case using Cons by (cases i) (auto simp: kv)
qed

lemma set_prop_nth:
  "i < length kvs \<Longrightarrow> fst (kvs ! i) \<noteq> k \<Longrightarrow> set_prop kvs k v ! i = kvs ! i"
  by (simp add: set_prop_def assign_field_nth)

lemma trunc_object_second:
  assumes "i < length kvs" and "i < maxKeys lm" and "snd (kvs ! i) = VRef a"
    and "distinct (map fst kvs)" and "protoKey \<notin> fst ` set kvs"
    and "fst (kvs ! i) \<noteq> str ''__truncated__''"
    and "a \<in> seen \<or> (a < length h \<and> a \<in> keptRefs_fields lm i kvs)"
  shows "objectFields (fst (trunc h lm (VObj kvs) seen)) ! i = (fst (kvs ! i), VStr (str ''[circular]''))"
proof -
  let ?kept = "take (maxKeys lm) kvs"
  let ?vs = "map snd ?kept"
  obtain out seen' where o: "trunc_list h lm ?vs seen = (out, seen')"
    by (cases "trunc_list h lm ?vs seen")
  have 1: "i < length ?vs" "?vs ! i = VRef a" using assms(1,2,3) by simp_all
  have "keptRefs_fields lm i kvs = keptRefs_list lm i ?vs"
    using keptRefs_list_prefix[where i = i and n = "maxKeys lm" and lm = lm and xs = "map snd kvs"] assms(2)
    by (simp add: keptRefs_fields_list take_map)
  then have 2: "a \<in> seen \<or> (a < length h \<and> a \<in> keptRefs_list lm i ?vs)" using assms(7) by simp
  have c: "out ! i = VStr (str ''[circular]'')"
    using trunc_list_second[OF 1 2] o by simp
  have len: "length out = length ?kept"
    using trunc_list_length[of h lm ?vs seen] o by simp
  let ?pairs = "zip (take (maxKeys lm) (map fst kvs)) out"
  have mf: "map fst ?pairs = take (maxKeys lm) (map fst kvs)"
    using len by (simp add: take_map)
  have dk1: "distinct (map fst ?pairs)"
    unfolding mf using assms(4) by (rule distinct_take)
  have "set (map fst ?pairs) \<subseteq> set (map fst kvs)"
    unfolding mf by (rule set_take_subset)
  then have dk2: "protoKey \<notin> fst ` set ?pairs" using assms(5) by auto
  note dk = dk1 dk2
  have f: "fold (\<lambda>(k, v) out. set_prop out k v) ?pairs [] = ?pairs"
    using assign_fresh[of "[]" ?pairs] dk by simp
  have il: "i < length ?pairs" using len assms(1,2) by simp
  have nth: "?pairs ! i = (fst (kvs ! i), VStr (str ''[circular]''))"
    using il c assms(1,2) by (simp add: take_map)
  show ?thesis
  proof (cases "maxKeys lm < length kvs")
    case True
    have "set_prop ?pairs (str ''__truncated__'') (VStr (keysMarker (length kvs - maxKeys lm))) ! i
            = ?pairs ! i"
      using il nth assms(6) by (intro set_prop_nth) simp_all
    then show ?thesis using True o f nth by (simp add: Let_def)
  next
    case False
    then show ?thesis using o f nth by (simp add: Let_def)
  qed
qed



section \<open>Deep truncation is total on values that fit the stack\<close>

text \<open>
  C10, as stated, fails: whatever room the stack has, there is a value, arrays nested
  one deeper than the room, on which \<open>truncateDeep\<close> throws a \<open>RangeError\<close>.
\<close>

theorem truncateDeep_overflows_stack:
  "\<forall>d. truncateDeepWithin d [] (nested d) responseLimits = None"
  by (simp add: truncateDeepWithin_def nested_overflow responseLimits_def)

text \<open>
  C10, amended. For every value in every heap, cyclic or not, there is a depth of stack
  from which on \<open>truncateDeep\<close> returns, and what it returns on any stack that does
  not overflow is the same value. That value is plain data: no function and no reference
  is left in it. It holds no more arrays and objects than the value and the heap do, so
  every object of the heap is copied at most once. Every reference the value holds (within
  the limits) is visited. Among the children of an array or object a function becomes
  \<open>[function]\<close>, and a reference becomes \<open>[circular]\<close> when its object has been
  visited before: when it is in \<open>seen\<close> (as on a cycle), or when an earlier child
  refers to it at any kept depth (a shared object). The last two conjuncts say the same
  of the items of the array and the fields of the object that are returned.
\<close>

theorem truncateDeep_total_circular:
  "(\<exists>d. \<forall>d' \<ge> d. truncateDeepWithin d' h v lm = Some (truncateDeep h v lm)) \<and>
   (truncateDeepWithin d h v lm = None \<or> truncateDeepWithin d h v lm = Some (truncateDeep h v lm)) \<and>
   plain (truncateDeep h v lm) \<and>
   containers (truncateDeep h v lm) \<le> containers v + heapContainers h {} \<and>
   keptRefs lm v \<inter> {..<length h} \<subseteq> snd (trunc h lm v seen) \<and>
   (j < length vs \<and> vs ! j = VFun \<longrightarrow>
      fst (trunc_list h lm vs seen) ! j = VStr (str ''[function]'')) \<and>
   (i < length vs \<and> vs ! i = VRef a \<and> (a \<in> seen \<or> (a < length h \<and> a \<in> keptRefs_list lm i vs)) \<longrightarrow>
      fst (trunc_list h lm vs seen) ! i = VStr (str ''[circular]'')) \<and>
   (n < length xs \<and> n < maxArray lm \<and> xs ! n = VRef b \<and>
    (b \<in> seen \<or> (b < length h \<and> b \<in> keptRefs_list lm n xs)) \<longrightarrow>
      arrayItems (fst (trunc h lm (VArr xs) seen)) ! n = VStr (str ''[circular]'')) \<and>
   (m < length kvs \<and> m < maxKeys lm \<and> snd (kvs ! m) = VRef c \<and> distinct (map fst kvs) \<and>
    protoKey \<notin> fst ` set kvs \<and> fst (kvs ! m) \<noteq> str ''__truncated__'' \<and>
    (c \<in> seen \<or> (c < length h \<and> c \<in> keptRefs_fields lm m kvs)) \<longrightarrow>
      objectFields (fst (trunc h lm (VObj kvs) seen)) ! m = (fst (kvs ! m), VStr (str ''[circular]'')))"
proof -
  obtain d0 where d0: "truncWithin d0 h lm v {} = Some (trunc h lm v {})"
    using truncWithin_enough(1) by blast
  have A: "\<exists>d. \<forall>d' \<ge> d. truncateDeepWithin d' h v lm = Some (truncateDeep h v lm)"
  proof (intro exI[of _ d0] allI impI)
    fix d' assume "d0 \<le> d'"
    from truncWithin_mono(1)[OF this d0]
    show "truncateDeepWithin d' h v lm = Some (truncateDeep h v lm)"
      by (simp add: truncateDeepWithin_def truncateDeep_def)
  qed
  have B: "truncateDeepWithin d h v lm = None \<or> truncateDeepWithin d h v lm = Some (truncateDeep h v lm)"
  proof (cases "truncWithin d h lm v {}")
    case None
    then show ?thesis by (simp add: truncateDeepWithin_def)
  next
    case (Some r)
    then show ?thesis using truncWithin_sound(1)[OF Some]
      by (simp add: truncateDeepWithin_def truncateDeep_def)
  qed
  have C: "plain (truncateDeep h v lm)"
    using trunc_plain(1)[of h lm v "{}"] by (simp add: truncateDeep_def plain_def)
  have D: "containers (truncateDeep h v lm) \<le> containers v + heapContainers h {}"
    using trunc_copies(1)[of h lm v "{}"] by (simp add: truncateDeep_def)
  have E: "keptRefs lm v \<inter> {..<length h} \<subseteq> snd (trunc h lm v seen)" by (rule trunc_visits(1))
  show ?thesis
    using A B C D E
      trunc_list_function[where i = j and vs = vs and h = h and lm = lm and seen = seen]
      trunc_list_second[where i = i and vs = vs and a = a and seen = seen and h = h and lm = lm]
      trunc_array_second[where i = n and xs = xs and lm = lm and a = b and seen = seen and h = h]
      trunc_object_second[where i = m and kvs = kvs and lm = lm and a = c and seen = seen and h = h]
    by blast
qed

text \<open>
  C10, amended, at the heap with an object that refers to itself, holds a function and
  holds twice the same array: the result needs a stack of three calls; the object and the
  array are each copied once (three arrays and objects in the result, three in value and
  heap); the reference to the object itself and the second reference to the array become
  \<open>[circular]\<close>, also when the first reference to the array is nested in another
  array.
\<close>

theorem truncateDeep_total_circular_witness:
  "truncateDeep cyclicHeap (VRef 0) responseLimits
     = VObj [(str ''self'', VStr (str ''[circular]'')),
             (str ''f'', VStr (str ''[function]'')),
             (str ''twice'', VArr [VArr [], VStr (str ''[circular]'')])] \<and>
   truncateDeepWithin 2 cyclicHeap (VRef 0) responseLimits = None \<and>
   truncateDeepWithin 3 cyclicHeap (VRef 0) responseLimits
     = Some (truncateDeep cyclicHeap (VRef 0) responseLimits) \<and>
   truncateDeepWithin 100 cyclicHeap (VRef 0) responseLimits
     = Some (truncateDeep cyclicHeap (VRef 0) responseLimits) \<and>
   plain (truncateDeep cyclicHeap (VRef 0) responseLimits) \<and>
   containers (truncateDeep cyclicHeap (VRef 0) responseLimits) = 3 \<and>
   containers (VRef 0) + heapContainers cyclicHeap {} = 3 \<and>
   keptRefs responseLimits (VRef 0) \<inter> {..<length cyclicHeap} = {0} \<and>
   0 \<in> snd (trunc cyclicHeap responseLimits (VRef 0) {}) \<and>
   fst (trunc_list cyclicHeap responseLimits [VRef 0, VFun, VArr [VRef 1, VRef 1]] {0}) ! 1
     = VStr (str ''[function]'') \<and>
   fst (trunc_list cyclicHeap responseLimits [VRef 0, VFun, VArr [VRef 1, VRef 1]] {0}) ! 0
     = VStr (str ''[circular]'') \<and>
   1 \<in> keptRefs_list responseLimits 1 [VArr [VRef 1], VRef 1] \<and>
   arrayItems (fst (trunc cyclicHeap responseLimits (VArr [VArr [VRef 1], VRef 1]) {0})) ! 1
     = VStr (str ''[circular]'') \<and>
   objectFields (fst (trunc cyclicHeap responseLimits
       (VObj [(str ''self'', VRef 0), (str ''f'', VFun)]) {0})) ! 0
     = (str ''self'', VStr (str ''[circular]''))"
proof -
  note T = truncateDeep_total_circular[where h = cyclicHeap and lm = responseLimits
      and v = "VRef 0" and seen = "{0}" and d = 2
      and vs = "[VRef 0, VFun, VArr [VRef 1, VRef 1]]" and j = 1 and i = 0 and a = 0
      and xs = "[VArr [VRef 1], VRef 1]" and n = 1 and b = 1
      and kvs = "[(str ''self'', VRef 0), (str ''f'', VFun)]" and m = 0 and c = 0]
  note T0 = truncateDeep_total_circular[where h = cyclicHeap and lm = responseLimits
      and v = "VRef 0" and seen = "{}"]
  have v: "truncateDeep cyclicHeap (VRef 0) responseLimits
     = VObj [(str ''self'', VStr (str ''[circular]'')),
             (str ''f'', VStr (str ''[function]'')),
             (str ''twice'', VArr [VArr [], VStr (str ''[circular]'')])]"
    by (simp add: truncateDeep_def cyclicHeap_def responseLimits_def str_def set_prop_def protoKey_def)
  have w2: "truncateDeepWithin 2 cyclicHeap (VRef 0) responseLimits = None"
    by (simp add: truncateDeepWithin_def cyclicHeap_def responseLimits_def numeral_2_eq_2)
  have w3: "truncWithin 3 cyclicHeap responseLimits (VRef 0) {}
              = Some (trunc cyclicHeap responseLimits (VRef 0) {})"
    by (simp add: cyclicHeap_def responseLimits_def numeral_3_eq_3 str_def set_prop_def protoKey_def)
  have w: "truncateDeepWithin 3 cyclicHeap (VRef 0) responseLimits
                 = Some (truncateDeep cyclicHeap (VRef 0) responseLimits)"
    using w3 by (simp add: truncateDeepWithin_def truncateDeep_def)
  have w': "truncateDeepWithin 100 cyclicHeap (VRef 0) responseLimits
                 = Some (truncateDeep cyclicHeap (VRef 0) responseLimits)"
    using truncWithin_mono(1)[OF _ w3, of 100] by (simp add: truncateDeepWithin_def truncateDeep_def)
  have p: "plain (truncateDeep cyclicHeap (VRef 0) responseLimits)" using T by blast
  have c1: "containers (truncateDeep cyclicHeap (VRef 0) responseLimits) = 3"
    unfolding v by simp
  have hc: "{..<length cyclicHeap} - {} = {0, 1}" by (auto simp: cyclicHeap_def)
  have c2: "containers (VRef 0) + heapContainers cyclicHeap {} = 3"
    unfolding heapContainers_def hc by (simp add: cyclicHeap_def)
  have k: "keptRefs responseLimits (VRef 0) \<inter> {..<length cyclicHeap} = {0}"
    by (auto simp: cyclicHeap_def)
  have k': "0 \<in> snd (trunc cyclicHeap responseLimits (VRef 0) {})" using T0 k by blast
  have f: "fst (trunc_list cyclicHeap responseLimits [VRef 0, VFun, VArr [VRef 1, VRef 1]] {0}) ! 1
     = VStr (str ''[function]'')"
    using T by simp
  have s: "fst (trunc_list cyclicHeap responseLimits [VRef 0, VFun, VArr [VRef 1, VRef 1]] {0}) ! 0
     = VStr (str ''[circular]'')"
    using T by simp
  have kr: "1 \<in> keptRefs_list responseLimits 1 [VArr [VRef 1], VRef 1]"
    by (simp add: responseLimits_def numeral_eq_Suc)
  have l: "1 < length cyclicHeap" by (simp add: cyclicHeap_def)
  have ar: "arrayItems (fst (trunc cyclicHeap responseLimits (VArr [VArr [VRef 1], VRef 1]) {0})) ! 1
     = VStr (str ''[circular]'')"
    using T kr l by (simp add: responseLimits_def)
  have ob: "objectFields (fst (trunc cyclicHeap responseLimits
       (VObj [(str ''self'', VRef 0), (str ''f'', VFun)]) {0})) ! 0
     = (str ''self'', VStr (str ''[circular]''))"
    using T by (simp add: responseLimits_def protoKey_def str_def)
  show ?thesis using v w2 w w' p c1 c2 k k' f s kr ar ob by blast
qed


section \<open>Deep truncation and the limits\<close>

lemma charsMarker_length: "length (charsMarker n) = 20 + length (digits n)"
  by (simp add: charsMarker_def str_def)



lemma trunc_list_nulls: "trunc_list h lm (replicate n VNull) seen = (replicate n VNull, seen)"
  by (induction n) auto

text \<open>
  C3, as stated, fails: with the limits that \<open>makeFunctionResponseParts\<close> passes, a
  string of 2001 characters comes back 2021 characters long and an array of 31 items
  comes back with 31 items, because the marker is appended to the part that is kept.
\<close>

theorem truncateDeep_exceeds_limits:
  "\<not> withinLimits responseLimits (truncateDeep [] (VStr (replicate 2001 97)) responseLimits) \<and>
   \<not> withinLimits responseLimits (truncateDeep [] (VArr (replicate 31 VNull)) responseLimits)"
proof -
  have s: "truncateDeep [] (VStr (replicate 2001 97)) responseLimits
             = VStr (replicate 2000 97 @ charsMarker 1)"
    by (simp add: truncateDeep_def responseLimits_def)
  have a: "truncateDeep [] (VArr (replicate 31 VNull)) responseLimits
             = VArr (replicate 30 VNull @ [VStr (itemsMarker 1)])"
    by (simp add: truncateDeep_def responseLimits_def trunc_list_nulls)
  show ?thesis unfolding s a
    by (simp add: withinLimits_def fits_simps responseLimits_def charsMarker_length)
qed

text \<open>
  C3, amended. For a value without symbols and bigints, every string of the result has
  at most \<open>maxChars\<close> characters, or its first \<open>maxChars\<close> characters are followed by
  a characters marker, or it is an items or keys marker or one of the placeholders; every
  array has at most \<open>maxArray\<close> items, or one more, the last being an items marker;
  every object has at most \<open>maxKeys\<close> keys, or one more, with a keys marker under
  \<open>__truncated__\<close>; and nothing but plain data is left. Wherever \<open>trunc\<close> cuts a
  string, an array or an object, the count that can be read back from the marker is the
  number of characters, items or keys that were cut.
\<close>

theorem truncateDeep_bounded_with_markers:
  "(symbolFree h v \<longrightarrow> bounded lm (truncateDeep h v lm)) \<and>
   (maxChars lm < length s \<longrightarrow>
      (let out = stringOf (fst (trunc h lm (VStr s) seen))
       in take (maxChars lm) out = take (maxChars lm) s \<and>
          markerCount charsPre charsSuf (drop (maxChars lm) out) = length s - maxChars lm)) \<and>
   (maxArray lm < length xs \<longrightarrow>
      (let out = arrayItems (fst (trunc h lm (VArr xs) seen))
       in length out = maxArray lm + 1 \<and>
          markerCount countPre itemsSuf (stringOf (last out)) = length xs - maxArray lm)) \<and>
   (maxKeys lm < length kvs \<longrightarrow>
      (let out = objectFields (fst (trunc h lm (VObj kvs) seen))
       in length out \<le> maxKeys lm + 1 \<and>
          markerCount countPre keysSuf (stringOf (get_prop (VObj out) (str ''__truncated__'')))
            = length kvs - maxKeys lm))"
proof -
  have b: "symbolFree h v \<longrightarrow> bounded lm (truncateDeep h v lm)"
    using trunc_bounded(1)[of v h lm "{}"] by (simp add: symbolFree_def bounded_def truncateDeep_def)
  have c: "maxChars lm < length s \<longrightarrow>
      (let out = stringOf (fst (trunc h lm (VStr s) seen))
       in take (maxChars lm) out = take (maxChars lm) s \<and>
          markerCount charsPre charsSuf (drop (maxChars lm) out) = length s - maxChars lm)"
    by (simp add: charsMarker_eq markerCount_marker)
  have a: "maxArray lm < length xs \<longrightarrow>
      (let out = arrayItems (fst (trunc h lm (VArr xs) seen))
       in length out = maxArray lm + 1 \<and>
          markerCount countPre itemsSuf (stringOf (last out)) = length xs - maxArray lm)"
  proof
    assume big: "maxArray lm < length xs"
    obtain out seen' where o: "trunc_list h lm (take (maxArray lm) xs) seen = (out, seen')"
      by (cases "trunc_list h lm (take (maxArray lm) xs) seen")
    have "length out = maxArray lm"
      using trunc_list_length[of h lm "take (maxArray lm) xs" seen] o big by simp
    then show "let out = arrayItems (fst (trunc h lm (VArr xs) seen))
       in length out = maxArray lm + 1 \<and>
          markerCount countPre itemsSuf (stringOf (last out)) = length xs - maxArray lm"
      using o big by (simp add: itemsMarker_eq markerCount_marker)
  qed
  have k: "maxKeys lm < length kvs \<longrightarrow>
      (let out = objectFields (fst (trunc h lm (VObj kvs) seen))
       in length out \<le> maxKeys lm + 1 \<and>
          markerCount countPre keysSuf (stringOf (get_prop (VObj out) (str ''__truncated__'')))
            = length kvs - maxKeys lm)"
  proof
    assume big: "maxKeys lm < length kvs"
    obtain vs seen' where o: "trunc_list h lm (map snd (take (maxKeys lm) kvs)) seen = (vs, seen')"
      by (cases "trunc_list h lm (map snd (take (maxKeys lm) kvs)) seen")
    let ?out = "fold (\<lambda>(k, v) out. set_prop out k v) (zip (take (maxKeys lm) (map fst kvs)) vs) []"
    have lvs: "length vs = maxKeys lm"
      using trunc_list_length[of h lm "map snd (take (maxKeys lm) kvs)" seen] o big by simp
    have l: "length ?out \<le> maxKeys lm"
      using assign_length[of "zip (take (maxKeys lm) (map fst kvs)) vs" "[]"] lvs big by simp
    have l': "length (set_prop ?out (str ''__truncated__'') (VStr (keysMarker (length kvs - maxKeys lm))))
                \<le> maxKeys lm + 1"
      using l set_prop_length[of ?out "str ''__truncated__''"
                 "VStr (keysMarker (length kvs - maxKeys lm))"] by simp
    show "let out = objectFields (fst (trunc h lm (VObj kvs) seen))
       in length out \<le> maxKeys lm + 1 \<and>
          markerCount countPre keysSuf (stringOf (get_prop (VObj out) (str ''__truncated__'')))
            = length kvs - maxKeys lm"
      using o big l' by (simp add: Let_def set_prop_map_of[OF truncated_not_proto] keysMarker_eq markerCount_marker)
  qed
  from b c a k show ?thesis by blast
qed

theorem truncateDeep_bounded_with_markers_witness:
  "symbolFree [] longItems \<and> bounded tightLimits (truncateDeep [] longItems tightLimits) \<and>
   truncateDeep [] longItems tightLimits
     = VArr [VStr (str ''abcd'' @ charsMarker 2), VStr (str ''xy''), VStr (itemsMarker 1)] \<and>
   maxChars tightLimits < length (str ''abcdef'') \<and>
   markerCount charsPre charsSuf
     (drop (maxChars tightLimits) (stringOf (fst (trunc [] tightLimits (VStr (str ''abcdef'')) {}))))
     = 2 \<and>
   maxArray tightLimits < length (arrayItems longItems) \<and>
   markerCount countPre itemsSuf
     (stringOf (last (arrayItems (fst (trunc [] tightLimits (VArr (arrayItems longItems)) {}))))) = 1 \<and>
   maxKeys tightLimits < length [(str ''a'', VNull), (str ''b'', VNull)] \<and>
   markerCount countPre keysSuf
     (stringOf (get_prop (VObj (objectFields (fst (trunc [] tightLimits
        (VObj [(str ''a'', VNull), (str ''b'', VNull)]) {})))) (str ''__truncated__''))) = 1"
proof -
  note T = truncateDeep_bounded_with_markers[where h = "[]" and v = longItems
      and lm = tightLimits and s = "str ''abcdef''" and seen = "{}"
      and xs = "arrayItems longItems" and kvs = "[(str ''a'', VNull), (str ''b'', VNull)]"]
  have sf: "symbolFree [] longItems"
    by (simp add: symbolFree_def longItems_def notOther_simps)
  have v: "truncateDeep [] longItems tightLimits
     = VArr [VStr (str ''abcd'' @ charsMarker 2), VStr (str ''xy''), VStr (itemsMarker 1)]"
    by (simp add: truncateDeep_def longItems_def tightLimits_def str_def charsMarker_def
          itemsMarker_def digits.simps)
  have c: "maxChars tightLimits < length (str ''abcdef'')"
    by (simp add: tightLimits_def str_def)
  have a: "maxArray tightLimits < length (arrayItems longItems)"
    by (simp add: tightLimits_def longItems_def)
  have k: "maxKeys tightLimits < length [(str ''a'', VNull), (str ''b'', VNull)]"
    by (simp add: tightLimits_def)
  have n2: "length (str ''abcdef'') - maxChars tightLimits = 2"
    by (simp add: tightLimits_def str_def)
  have n1: "length (arrayItems longItems) - maxArray tightLimits = 1"
    by (simp add: tightLimits_def longItems_def)
  have n1': "length [(str ''a'', VNull), (str ''b'', VNull)] - maxKeys tightLimits = 1"
    by (simp add: tightLimits_def)
  from T sf have b: "bounded tightLimits (truncateDeep [] longItems tightLimits)" by blast
  from T c have mc: "markerCount charsPre charsSuf
     (drop (maxChars tightLimits) (stringOf (fst (trunc [] tightLimits (VStr (str ''abcdef'')) {}))))
     = length (str ''abcdef'') - maxChars tightLimits"
    unfolding Let_def by blast
  from T a have ma: "markerCount countPre itemsSuf
     (stringOf (last (arrayItems (fst (trunc [] tightLimits (VArr (arrayItems longItems)) {})))))
     = length (arrayItems longItems) - maxArray tightLimits"
    unfolding Let_def by blast
  from T k have mk: "markerCount countPre keysSuf
     (stringOf (get_prop (VObj (objectFields (fst (trunc [] tightLimits
        (VObj [(str ''a'', VNull), (str ''b'', VNull)]) {})))) (str ''__truncated__'')))
     = length [(str ''a'', VNull), (str ''b'', VNull)] - maxKeys tightLimits"
    unfolding Let_def by blast
  show ?thesis
    using sf b v c a k mc[unfolded n2] ma[unfolded n1] mk[unfolded n1'] by blast
qed


section \<open>Truncating twice\<close>





section \<open>The character budget is respected\<close>

lemma estimate_Nil: "estimateContentChars [] = 0"
  by (simp add: estimateContentChars_def)

lemma trimLoop_ok:
  "i \<le> length contents \<Longrightarrow> kept = drop i contents \<Longrightarrow>
   int (estimateContentChars kept) \<le> maxc \<Longrightarrow>
   suffix (trimLoop contents maxc i kept) contents \<and>
   int (estimateContentChars (trimLoop contents maxc i kept)) \<le> maxc"
proof (induction i arbitrary: kept)
  case 0
  then show ?case by simp
next
  case (Suc i)
  have step: "contents ! i # kept = drop i contents"
    using Suc.prems by (simp add: Cons_nth_drop_Suc)
  show ?case
  proof (cases "int (estimateContentChars (contents ! i # kept)) > maxc")
    case True
    then show ?thesis using Suc.prems by (simp add: suffix_drop)
  next
    case False
    then show ?thesis using Suc.IH[of "contents ! i # kept"] Suc.prems step by simp
  qed
qed

lemma trimContents_ok:
  assumes "0 \<le> maxc"
  shows "suffix (trimContents contents maxc) contents \<and>
         int (estimateContentChars (trimContents contents maxc)) \<le> maxc"
proof (cases "int (estimateContentChars contents) \<le> maxc")
  case True
  then show ?thesis by (simp add: trimContents_def)
next
  case False
  then show ?thesis
    using trimLoop_ok[of "length contents" contents "[]" maxc] assms
    by (simp add: trimContents_def estimate_Nil)
qed

lemma compressLoop_ok:
  "0 \<le> maxc \<Longrightarrow> tailCount \<le> min (length contents) 8 \<Longrightarrow>
   int (estimateContentChars (fst (compressLoop e S contents maxc tailCount w))) \<le> maxc \<and>
   ((\<exists>k summary. 2 < k \<and> k \<le> min (length contents) 8 \<and>
       fst (compressLoop e S contents maxc tailCount w)
         = summaryContent summary # drop (length contents - k) contents)
    \<or> fst (compressLoop e S contents maxc tailCount w) = trimContents contents maxc)"
proof (induction e S contents maxc tailCount w rule: compressLoop.induct)
  case (1 e S contents maxc tailCount w)
  show ?case
  proof (cases "tailCount > 2")
    case False
    then show ?thesis
      using trimContents_ok[of maxc contents] "1.prems" by (simp add: compressLoop.simps)
  next
    case True
    obtain summary w1 where sm:
      "summarizeHistoryText e S (take (length contents - tailCount) contents) w = (summary, w1)"
      by (cases "summarizeHistoryText e S (take (length contents - tailCount) contents) w")
    let ?new = "summaryContent summary # drop (length contents - tailCount) contents"
    show ?thesis
    proof (cases "int (estimateContentChars ?new) \<le> maxc")
      case fits: True
      have "fst (compressLoop e S contents maxc tailCount w) = ?new"
        using True sm fits by (subst compressLoop.simps) simp
      then show ?thesis using fits True "1.prems" by auto
    next
      case over: False
      have eq: "compressLoop e S contents maxc tailCount w
                  = compressLoop e S contents maxc (tailCount - 2) w1"
        using True sm over by (subst compressLoop.simps) simp
      have "tailCount - 2 \<le> min (length contents) 8" using "1.prems" by auto
      from "1.IH"[OF True refl refl refl sm[symmetric] refl over "1.prems"(1) this]
      show ?thesis unfolding eq .
    qed
  qed
qed

lemma estimate_append:
  "estimateContentChars (xs @ ys) = estimateContentChars xs + estimateContentChars ys"
  by (simp add: estimateContentChars_def)

lemma estimate_suffix:
  "suffix xs ys \<Longrightarrow> estimateContentChars xs \<le> estimateContentChars ys"
  by (auto simp: suffix_def estimate_append)

lemma trimLoop_cut:
  "i \<le> length contents \<Longrightarrow> kept = drop i contents \<Longrightarrow>
   trimLoop contents maxc i kept = contents \<or>
   (\<exists>j < length contents. trimLoop contents maxc i kept = drop (Suc j) contents \<and>
        maxc < int (estimateContentChars (drop j contents)))"
proof (induction i arbitrary: kept)
  case 0
  then show ?case by simp
next
  case (Suc i)
  have step: "contents ! i # kept = drop i contents"
    using Suc.prems by (simp add: Cons_nth_drop_Suc)
  show ?case
  proof (cases "int (estimateContentChars (contents ! i # kept)) > maxc")
    case True
    have "trimLoop contents maxc (Suc i) kept = drop (Suc i) contents"
      using True Suc.prems by simp
    moreover have "i < length contents" using Suc.prems by simp
    moreover have "maxc < int (estimateContentChars (drop i contents))" using True step by simp
    ultimately show ?thesis by blast
  next
    case False
    then show ?thesis using Suc.IH[of "contents ! i # kept"] Suc.prems step by simp
  qed
qed

lemma suffix_drop_longer:
  assumes "suffix ys contents" and "length contents - j \<le> length ys"
  shows "suffix (drop j contents) ys"
proof -
  obtain zs where c: "contents = zs @ ys" using assms(1) by (auto simp: suffix_def)
  have "length zs \<le> j" using assms(2) c by simp
  then have "drop j contents = drop (j - length zs) ys" unfolding c by simp
  then show ?thesis by (simp add: suffix_drop)
qed

lemma trimContents_longest:
  assumes "suffix ys contents" and "int (estimateContentChars ys) \<le> maxc"
  shows "length ys \<le> length (trimContents contents maxc)"
proof (cases "int (estimateContentChars contents) \<le> maxc")
  case True
  then show ?thesis using assms(1) by (simp add: trimContents_def suffix_length_le)
next
  case False
  then have t: "trimContents contents maxc = trimLoop contents maxc (length contents) []"
    by (simp add: trimContents_def)
  from trimLoop_cut[of "length contents" contents "[]" maxc]
  consider "trimLoop contents maxc (length contents) [] = contents"
    | j where "j < length contents"
        "trimLoop contents maxc (length contents) [] = drop (Suc j) contents"
        "maxc < int (estimateContentChars (drop j contents))"
    by auto
  then show ?thesis
  proof cases
    case 1
    then show ?thesis using assms(1) t by (simp add: suffix_length_le)
  next
    case 2
    show ?thesis
    proof (rule ccontr)
      assume "\<not> length ys \<le> length (trimContents contents maxc)"
      then have "length contents - j \<le> length ys" using 2(1,2) t by simp
      from suffix_drop_longer[OF assms(1) this]
      have "estimateContentChars (drop j contents) \<le> estimateContentChars ys"
        by (rule estimate_suffix)
      then show False using 2(3) assms(2) by simp
    qed
  qed
qed

lemma compressLoop_low:
  "tc \<le> 2 \<Longrightarrow> compressLoop e S contents maxc tc w0 = (trimContents contents maxc, w0)"
  by (subst compressLoop.simps) simp

lemma compressLoop_step:
  "2 < tc \<Longrightarrow> summarizeHistoryText e S (take (length contents - tc) contents) w0 = (s, w') \<Longrightarrow>
   compressLoop e S contents maxc tc w0 =
     (if int (estimateContentChars (summaryContent s # drop (length contents - tc) contents)) \<le> maxc
      then (summaryContent s # drop (length contents - tc) contents, w')
      else compressLoop e S contents maxc (tc - 2) w')"
  by (subst compressLoop.simps) simp

lemma collapse: "f = (fst f, snd f)"
  by simp

lemma body_fetch_any:
  "fetchWithRetry (bodyEnv b) rq retries base w =
     (Response 200 [] b,
      w\<lparr>nfetch := nfetch w + 1, trace := trace w @ [EFetch rq (Response 200 [] b)]\<rparr>)"
  by (simp add: fetchWithRetry_def fetchRetryLoop.simps[of _ _ _ _ 0] fetch_def emit_def bodyEnv_def
        ok_def Let_def)

lemma summary_done:
  "fst (summarizeHistoryText (bodyEnv (Json (Some plainAnswer))) S hd_part w) = str ''done''"
  "nfetch (snd (summarizeHistoryText (bodyEnv (Json (Some plainAnswer))) S hd_part w)) = nfetch w + 1"
  by (simp_all add: summarizeHistoryText_def generateContentOnce_def body_fetch_any ok_def Let_def
        firstPartText_def plainAnswer_def textPart_def str_def)

lemma five_chars:
  "estimateContentChars fiveChat = 64"
  "length fiveChat = 5"
  "estimateContentChars (summaryContent (str ''done'') # fiveChat) = 103"
  "estimateContentChars (summaryContent (str ''done'') # drop 2 fiveChat) = 42"
  by (simp_all add: fiveChat_def estimateContentChars_def userContent_def textPart_def partChars_def
        summaryContent_def str_def)

lemma five_trim:
  "trimContents fiveChat 10
     = [userContent (str ''b''), userContent (str ''c''), userContent (str ''d''), userContent (str ''e'')]"
  by (simp add: trimContents_def fiveChat_def estimateContentChars_def userContent_def textPart_def
        partChars_def str_def numeral_eq_Suc)

text \<open>
  C5. Let the estimated size of the contents exceed a (non-negative) budget, and let
  \<open>k\<close> be the number of entries, at most 8. \<open>compressIfNeeded\<close> first summarises:
  it asks for a summary of all entries but the last \<open>k\<close> and returns the summary
  followed by the last \<open>k\<close> entries when that fits the budget; if not it tries again
  with the last \<open>k - 2\<close> and then with the last \<open>k - 4\<close> entries, as long as more
  than two entries are kept, each attempt with a summary of its own. Only when no
  attempt fits is the result the hard truncation \<open>trimContents\<close>. In every case the
  estimated size of the result is at most the budget. The hard truncation drops entries
  from the oldest end: it is a suffix of the contents, and the longest one that fits the
  budget. This holds whatever the summarising model call returns.
\<close>

theorem compressIfNeeded_within_budget:
  assumes "0 \<le> maxc" and "maxc < int (estimateContentChars contents)"
    and "k = min (length contents) 8"
    and "summarizeHistoryText e S (take (length contents - k) contents) w = (s1, w1)"
    and "summarizeHistoryText e S (take (length contents - (k - 2)) contents) w1 = (s2, w2)"
    and "summarizeHistoryText e S (take (length contents - (k - 4)) contents) w2 = (s3, w3)"
    and "c1 = summaryContent s1 # drop (length contents - k) contents"
    and "c2 = summaryContent s2 # drop (length contents - (k - 2)) contents"
    and "c3 = summaryContent s3 # drop (length contents - (k - 4)) contents"
  shows "int (estimateContentChars (fst (compressIfNeeded e S contents maxc w))) \<le> maxc \<and>
         compressIfNeeded e S contents maxc w =
           (if k \<le> 2 then (trimContents contents maxc, w)
            else if int (estimateContentChars c1) \<le> maxc then (c1, w1)
            else if k \<le> 4 then (trimContents contents maxc, w1)
            else if int (estimateContentChars c2) \<le> maxc then (c2, w2)
            else if k \<le> 6 then (trimContents contents maxc, w2)
            else if int (estimateContentChars c3) \<le> maxc then (c3, w3)
            else (trimContents contents maxc, w3)) \<and>
         suffix (trimContents contents maxc) contents \<and>
         (\<forall>ys. suffix ys contents \<and> int (estimateContentChars ys) \<le> maxc \<longrightarrow>
               length ys \<le> length (trimContents contents maxc))"
proof -
  have k8: "k \<le> 8" using assms(3) by simp
  have A: "int (estimateContentChars (fst (compressIfNeeded e S contents maxc w))) \<le> maxc"
    using compressLoop_ok[OF assms(1), of "min (length contents) 8" contents e S w] assms(2)
    by (simp add: compressIfNeeded_def)
  have start: "compressIfNeeded e S contents maxc w = compressLoop e S contents maxc k w"
    using assms(2,3) by (simp add: compressIfNeeded_def)
  have B: "compressLoop e S contents maxc k w =
           (if k \<le> 2 then (trimContents contents maxc, w)
            else if int (estimateContentChars c1) \<le> maxc then (c1, w1)
            else if k \<le> 4 then (trimContents contents maxc, w1)
            else if int (estimateContentChars c2) \<le> maxc then (c2, w2)
            else if k \<le> 6 then (trimContents contents maxc, w2)
            else if int (estimateContentChars c3) \<le> maxc then (c3, w3)
            else (trimContents contents maxc, w3))"
  proof (cases "k \<le> 2")
    case True
    then show ?thesis by (simp add: compressLoop_low)
  next
    case k2: False
    then have g2: "2 < k" by simp
    note s1 = compressLoop_step[OF g2 assms(4), of maxc, folded assms(7)]
    show ?thesis
    proof (cases "int (estimateContentChars c1) \<le> maxc")
      case True
      then show ?thesis using k2 s1 by simp
    next
      case f1: False
      show ?thesis
      proof (cases "k \<le> 4")
        case True
        then have "k - 2 \<le> 2" by simp
        then show ?thesis using k2 f1 s1 True by (simp add: compressLoop_low)
      next
        case k4: False
        then have g4: "2 < k - 2" by simp
        note s2 = compressLoop_step[OF g4 assms(5), of maxc, folded assms(8)]
        have e4: "k - 2 - 2 = k - 4" by simp
        show ?thesis
        proof (cases "int (estimateContentChars c2) \<le> maxc")
          case True
          then show ?thesis using k2 f1 k4 s1 s2 by simp
        next
          case f2: False
          show ?thesis
          proof (cases "k \<le> 6")
            case True
            then have "k - 4 \<le> 2" by simp
            then show ?thesis using k2 f1 k4 f2 s1 s2 True by (simp add: compressLoop_low e4)
          next
            case k6: False
            then have g6: "2 < k - 4" by simp
            note s3 = compressLoop_step[OF g6 assms(6), of maxc, folded assms(9)]
            have "k - 4 - 2 \<le> 2" using k8 by simp
            then have l: "compressLoop e S contents maxc (k - 4 - 2) w3 = (trimContents contents maxc, w3)"
              by (rule compressLoop_low)
            show ?thesis using k2 f1 k4 f2 k6 s1 s2 s3 l by (simp add: e4)
          qed
        qed
      qed
    qed
  qed
  have C: "suffix (trimContents contents maxc) contents"
    using trimContents_ok[OF assms(1), of contents] by simp
  have D: "\<forall>ys. suffix ys contents \<and> int (estimateContentChars ys) \<le> maxc \<longrightarrow>
               length ys \<le> length (trimContents contents maxc)"
    using trimContents_longest by blast
  show ?thesis using A B C D unfolding start by blast
qed

text \<open>
  C5 at a conversation of five entries with 64 characters, against a backend whose
  summary is \<open>done\<close>. With budget 50 the first attempt (summary and all five entries,
  103 characters) does not fit, the second (summary and the last three entries, 42
  characters) does. With budget 10 neither fits, and after the two summarising calls
  the hard truncation keeps the last four entries.
\<close>

theorem compressIfNeeded_within_budget_witness:
  "int (estimateContentChars fiveChat) = 64 \<and>
   fst (compressIfNeeded (bodyEnv (Json (Some plainAnswer))) initialSTATE fiveChat 50 world0)
     = [userContent (str ''Conversation summary (compressed):'' @ [10] @ str ''done''),
        userContent (str ''c''), userContent (str ''d''), userContent (str ''e'')] \<and>
   nfetch (snd (compressIfNeeded (bodyEnv (Json (Some plainAnswer))) initialSTATE fiveChat 50 world0)) = 2 \<and>
   int (estimateContentChars
     (fst (compressIfNeeded (bodyEnv (Json (Some plainAnswer))) initialSTATE fiveChat 50 world0))) = 42 \<and>
   fst (compressIfNeeded (bodyEnv (Json (Some plainAnswer))) initialSTATE fiveChat 10 world0)
     = [userContent (str ''b''), userContent (str ''c''), userContent (str ''d''), userContent (str ''e'')] \<and>
   nfetch (snd (compressIfNeeded (bodyEnv (Json (Some plainAnswer))) initialSTATE fiveChat 10 world0)) = 2 \<and>
   int (estimateContentChars
     (fst (compressIfNeeded (bodyEnv (Json (Some plainAnswer))) initialSTATE fiveChat 10 world0))) \<le> 10 \<and>
   suffix (fst (compressIfNeeded (bodyEnv (Json (Some plainAnswer))) initialSTATE fiveChat 10 world0)) fiveChat"
proof -
  define E where "E = bodyEnv (Json (Some plainAnswer))"
  have big1: "(50::int) < int (estimateContentChars fiveChat)" by (simp add: five_chars)
  have big2: "(10::int) < int (estimateContentChars fiveChat)" by (simp add: five_chars)
  have le1: "(0::int) \<le> 50" by simp
  have le2: "(0::int) \<le> 10" by simp
  note T1 = compressIfNeeded_within_budget[OF le1 big1 refl collapse collapse collapse refl refl refl,
               where e = E and S = initialSTATE and w = world0]
  note T2 = compressIfNeeded_within_budget[OF le2 big2 refl collapse collapse collapse refl refl refl,
               where e = E and S = initialSTATE and w = world0]
  have w0: "nfetch world0 = 0" by (simp add: world0_def)
  have d2: "drop 2 fiveChat = [userContent (str ''c''), userContent (str ''d''), userContent (str ''e'')]"
    by (simp add: fiveChat_def)
  have e1: "compressIfNeeded E initialSTATE fiveChat 50 world0
      = (summaryContent (str ''done'') # drop 2 fiveChat,
         snd (summarizeHistoryText E initialSTATE (take 2 fiveChat)
                (snd (summarizeHistoryText E initialSTATE [] world0))))"
    using T1 by (simp add: five_chars E_def summary_done)
  have e2: "compressIfNeeded E initialSTATE fiveChat 10 world0
      = (trimContents fiveChat 10,
         snd (summarizeHistoryText E initialSTATE (take 2 fiveChat)
                (snd (summarizeHistoryText E initialSTATE [] world0))))"
    using T2 by (simp add: five_chars E_def summary_done)
  have n: "nfetch (snd (summarizeHistoryText E initialSTATE (take 2 fiveChat)
                (snd (summarizeHistoryText E initialSTATE [] world0)))) = 2"
    by (simp add: E_def summary_done w0)
  have a: "int (estimateContentChars fiveChat) = 64" by (simp add: five_chars)
  have b: "fst (compressIfNeeded E initialSTATE fiveChat 50 world0)
     = [userContent (str ''Conversation summary (compressed):'' @ [10] @ str ''done''),
        userContent (str ''c''), userContent (str ''d''), userContent (str ''e'')]"
    unfolding e1 by (simp add: d2 summaryContent_def)
  have c: "int (estimateContentChars (fst (compressIfNeeded E initialSTATE fiveChat 50 world0))) = 42"
    unfolding e1 by (simp add: five_chars)
  have d: "fst (compressIfNeeded E initialSTATE fiveChat 10 world0)
     = [userContent (str ''b''), userContent (str ''c''), userContent (str ''d''), userContent (str ''e'')]"
    unfolding e2 by (simp add: five_trim)
  have f: "int (estimateContentChars (fst (compressIfNeeded E initialSTATE fiveChat 10 world0))) \<le> 10"
    by (rule T2[THEN conjunct1])
  have g: "suffix (fst (compressIfNeeded E initialSTATE fiveChat 10 world0)) fiveChat"
    unfolding e2 fst_conv by (rule T2[THEN conjunct2, THEN conjunct2, THEN conjunct1])
  have n1: "nfetch (snd (compressIfNeeded E initialSTATE fiveChat 50 world0)) = 2"
    unfolding e1 using n by simp
  have n2: "nfetch (snd (compressIfNeeded E initialSTATE fiveChat 10 world0)) = 2"
    unfolding e2 using n by simp
  show ?thesis
    using a b c d f g n1 n2 unfolding E_def by blast
qed


section \<open>Redirect unwrapping\<close>

lemma decodeGoogleRedirect_google:
  "parseURL href = Some u \<Longrightarrow> googleParam u = Some v \<Longrightarrow> decodeGoogleRedirect parseURL href = v"
  by (simp add: decodeGoogleRedirect_def)

lemma decodeGoogleRedirect_bing:
  "parseURL href = Some u \<Longrightarrow> googleParam u = None \<Longrightarrow> bingParam u = Some v \<Longrightarrow>
   decodeGoogleRedirect parseURL href = v"
  by (simp add: decodeGoogleRedirect_def)

lemma decodeGoogleRedirect_other:
  "parseURL href = Some u \<Longrightarrow> googleParam u = None \<Longrightarrow> bingParam u = None \<Longrightarrow>
   duckParam u = None \<Longrightarrow> decodeGoogleRedirect parseURL href = href"
  by (simp add: decodeGoogleRedirect_def)

lemma ddg_destination:
  "decodeURIComponent (str ''https://example.com/?q=a%26b'') = Some (str ''https://example.com/?q=a&b'')"
  by (simp add: decodeURIComponent_def str_def hexval_def)

text \<open>
  C8. For the DuckDuckGo link \<open>ddgHref\<close> the decoded destination parameter is
  \<open>https://example.com/?q=a%26b\<close>, but \<open>decodeGoogleRedirect\<close> returns
  \<open>https://example.com/?q=a&b\<close>: the value that \<open>searchParams.get\<close> has already
  decoded is decoded a second time. The Google and Bing branches return the value
  as \<open>searchParams.get\<close> gives it.
\<close>

theorem decodeGoogleRedirect_ddg_decodes_twice:
  "duckParam (the (ddgParse ddgHref)) = Some (str ''https://example.com/?q=a%26b'') \<and>
   decodeGoogleRedirect ddgParse ddgHref = str ''https://example.com/?q=a&b'' \<and>
   decodeGoogleRedirect ddgParse ddgHref \<noteq> str ''https://example.com/?q=a%26b''"
proof -
  have p: "duckParam (the (ddgParse ddgHref)) = Some (str ''https://example.com/?q=a%26b'')"
    by (simp add: ddgParse_def duckParam_def getParam_def startsWith_def str_def)
  have g: "googleParam (the (ddgParse ddgHref)) = None"
    by (simp add: ddgParse_def googleParam_def str_def)
  have b: "bingParam (the (ddgParse ddgHref)) = None"
    by (simp add: ddgParse_def bingParam_def str_def)
  have r: "decodeGoogleRedirect ddgParse ddgHref = str ''https://example.com/?q=a&b''"
    using p g b ddg_destination by (simp add: decodeGoogleRedirect_def ddgParse_def)
  have "str ''https://example.com/?q=a&b'' \<noteq> str ''https://example.com/?q=a%26b''"
    by (simp add: str_def)
  with p r show ?thesis by simp
qed


section \<open>The strategy ladder\<close>

lemma strategy3_grows: "length t \<le> length (strategy3 pg t)"
  by (simp add: strategy3_def Let_def)

lemma strategy4_grows: "length t \<le> length (strategy4 pg t)"
  by (auto simp: strategy4_def find_Some_iff split: option.splits)

lemma strategy5_grows: "length t \<le> length (strategy5 pg t)"
  by (simp add: strategy5_def Let_def)

lemma strategy6_grows: "length t \<le> length (strategy6 pg t)"
  by (simp add: strategy6_def Let_def)

text \<open>The last strategy of \<open>extractTextAllFrames\<close> never shortens the text.\<close>

lemma frameStrategy4_grows: "length t \<le> length (frameStrategy4 pg t)"
  by (simp add: frameStrategy4_def Let_def)

lemma thinPage_strategy12: "strategy12 thinPage = []"
  by (simp add: strategy12_def thinPage_def List.map_filter_def)

lemma thinPage_strategy3:
  "strategy3 thinPage [] = [97, 98, 10, 99, 100, 10, 101, 102, 10, 103, 104, 10, 105, 106]"
  by (simp add: strategy3_def thinPage_def str_def)

lemma thinPage_strategy4:
  "strategy4 thinPage [97, 98, 10, 99, 100, 10, 101, 102, 10, 103, 104, 10, 105, 106]
     = [97, 98, 10, 99, 100, 10, 101, 102, 10, 103, 104, 10, 105, 106]"
  by (simp add: strategy4_def thinPage_def str_def)

lemma thinPage_strategy5:
  "strategy5 thinPage [97, 98, 10, 99, 100, 10, 101, 102, 10, 103, 104, 10, 105, 106]
     = [97, 98, 10, 99, 100, 10, 101, 102, 10, 103, 104, 10, 105, 106]"
  by (simp add: strategy5_def thinPage_def str_def gather_def trim_def)

lemma thinPage_strategy6:
  "strategy6 thinPage [97, 98, 10, 99, 100, 10, 101, 102, 10, 103, 104, 10, 105, 106]
     = [97, 98, 10, 99, 100, 10, 101, 102, 10, 103, 104, 10, 105, 106]"
  by (simp add: strategy6_def thinPage_def str_def gather_def trim_def)

lemma thinPage_strategy7:
  "strategy7 thinPage [97, 98, 10, 99, 100, 10, 101, 102, 10, 103, 104, 10, 105, 106] = []"
  by (simp add: strategy7_def thinPage_def str_def filterLines_def trim_def isWhite_def)

text \<open>
  C9. On the document \<open>thinPage\<close> the running best text has 14 characters after the
  third strategy and keeps them up to the sixth; the seventh strategy compares the
  unfiltered body text (17 characters) with it and then stores the filtered lines, of
  which none is left: the best text shrinks from 14 characters to none.
\<close>

theorem extractText_ladder_shrinks:
  "map length (ladder thinPage) = [0, 14, 14, 14, 14, 0]"
  by (simp add: ladder_def Let_def thinPage_strategy12 thinPage_strategy3 thinPage_strategy4
        thinPage_strategy5 thinPage_strategy6 thinPage_strategy7)


section \<open>The trace of a run of the loop\<close>

subsection \<open>Growth of the trace\<close>

lemma grows_refl: "grows Ks w w"
  by (simp add: grows_def)

lemma grows_trans:
  assumes "grows Ks w w1" and "grows Ks w1 w2"
  shows "grows Ks w w2"
proof -
  obtain e1 where e1: "trace w1 = trace w @ e1" "kindOf ` set e1 \<subseteq> Ks"
    using assms(1) unfolding grows_def by blast
  obtain e2 where e2: "trace w2 = trace w1 @ e2" "kindOf ` set e2 \<subseteq> Ks"
    using assms(2) unfolding grows_def by blast
  have "trace w2 = trace w @ (e1 @ e2)" "kindOf ` set (e1 @ e2) \<subseteq> Ks"
    using e1 e2 by auto
  then show ?thesis unfolding grows_def by blast
qed

lemma grows_mono: "grows Ks w w' \<Longrightarrow> Ks \<subseteq> Ks' \<Longrightarrow> grows Ks' w w'"
  unfolding grows_def by blast

lemma grows_emit: "kindOf ev \<in> Ks \<Longrightarrow> grows Ks w (emit ev w)"
  by (simp add: grows_def emit_def)

lemma grows_same: "trace w' = trace w \<Longrightarrow> grows Ks w w'"
  by (simp add: grows_def)

lemma grows_new: "grows Ks w w' \<Longrightarrow> trace w' = trace w @ newEvents w w'"
  by (auto simp: grows_def newEvents_def)

lemma grows_kinds: "grows Ks w w' \<Longrightarrow> kindOf ` set (newEvents w w') \<subseteq> Ks"
  by (auto simp: grows_def newEvents_def)

lemma newEvents_trans:
  "grows Ks w w1 \<Longrightarrow> grows Ks' w1 w2 \<Longrightarrow> newEvents w w2 = newEvents w w1 @ newEvents w1 w2"
  by (auto simp: grows_def newEvents_def)

lemma newEvents_same: "trace w' = trace w \<Longrightarrow> newEvents w w' = []"
  by (simp add: newEvents_def)

lemma newEvents_emit: "newEvents w (emit ev w) = [ev]"
  by (simp add: newEvents_def emit_def)

lemma fetch_grows: "fetch e rq w = (r, w') \<Longrightarrow> grows {KFetch} w w'"
  by (auto simp: fetch_def Let_def grows_def emit_def)

lemma backoff_grows: "grows {KSleep} w (backoff e b a w)"
  by (simp add: backoff_def Let_def grows_def emit_def)

subsection \<open>Reading fetches and sleeps\<close>

lemma fetches_simps:
  "fetches [] = []"
  "fetches (EFetch rq r # evs) = (rq, r) # fetches evs"
  "fetches (ESleep d # evs) = fetches evs"
  "fetches (EStream t # evs) = fetches evs"
  "fetches (EApprovalRequest cs # evs) = fetches evs"
  "fetches (EApprovalResponse a # evs) = fetches evs"
  "fetches (EToolStatus n # evs) = fetches evs"
  "fetches (EExec i n v tb # evs) = fetches evs"
  by (simp_all add: fetches_def List.map_filter_simps)

lemma fetches_append: "fetches (xs @ ys) = fetches xs @ fetches ys"
  by (simp add: fetches_def List.map_filter_def)

lemma sleeps_simps:
  "sleeps [] = []"
  "sleeps (EFetch rq r # evs) = sleeps evs"
  "sleeps (ESleep d # evs) = d # sleeps evs"
  "sleeps (EStream t # evs) = sleeps evs"
  by (simp_all add: sleeps_def List.map_filter_simps)

lemma sleeps_append: "sleeps (xs @ ys) = sleeps xs @ sleeps ys"
  by (simp add: sleeps_def List.map_filter_def)

lemma fetch_world:
  "fetch e rq w = (fetch_at e (nfetch w) rq,
                   emit (EFetch rq (fetch_at e (nfetch w) rq)) (w\<lparr>nfetch := nfetch w + 1\<rparr>))"
  by (simp add: fetch_def Let_def)

lemma fetch_new:
  "fetch e rq w = (r, w') \<Longrightarrow> newEvents w w' = [EFetch rq r] \<and> nrandom w' = nrandom w
     \<and> r = fetch_at e (nfetch w) rq"
  by (auto simp: fetch_def Let_def newEvents_def emit_def)

lemma backoff_new:
  "newEvents w (backoff e b a w) = [ESleep (b * 2 ^ a + random_at e (nrandom w) * 100)]
   \<and> nrandom (backoff e b a w) = nrandom w + 1"
  by (simp add: backoff_def Let_def newEvents_def emit_def)

lemma upt_shift: "map f [0..<Suc n] = f 0 # map (\<lambda>k. f (Suc k)) [0..<n]"
  by (simp add: upt_conv_Cons map_Suc_upt[symmetric] del: upt_Suc)

lemma retryRun_kinds: "retryRun e rq retries b a l w r evs \<Longrightarrow> kindOf ` set evs \<subseteq> {KFetch, KSleep}"
  unfolding retryRun_def by blast

lemma retryRun_requests:
  "retryRun e rq retries b a l w r evs \<Longrightarrow> map fst (fetches evs) = replicate (length (fetches evs)) rq"
  unfolding retryRun_def by blast

lemma retryRun_sleeps:
  "retryRun e rq retries b a l w r evs \<Longrightarrow>
   sleeps evs = map (\<lambda>k. b * 2 ^ (a + k) + random_at e (nrandom w + k) * 100) [0..<length (sleeps evs)]"
  unfolding retryRun_def by blast

lemma retryRun_bounds:
  "retryRun e rq retries b a l w r evs \<Longrightarrow>
   length (sleeps evs) \<le> retries + 1 - a \<and> length (fetches evs) \<le> length (sleeps evs) + 1"
  unfolding retryRun_def by blast

lemma retryRun_butlast:
  "retryRun e rq retries b a l w r evs \<Longrightarrow> list_all transient (butlast (map snd (fetches evs)))"
  unfolding retryRun_def by blast

lemma retryRun_result:
  "retryRun e rq retries b a l w r evs \<Longrightarrow> r \<noteq> NetworkError \<Longrightarrow>
   fetches evs \<noteq> [] \<and> snd (last (fetches evs)) = r"
  unfolding retryRun_def by blast

lemma retryRun_transient:
  "retryRun e rq retries b a l w r evs \<Longrightarrow> transient r \<Longrightarrow> a \<le> retries \<Longrightarrow>
   length (sleeps evs) = retries + 1 - a \<and> length (sleeps evs) \<le> length (fetches evs)"
  unfolding retryRun_def by blast

lemma retryRun_not_ok:
  "retryRun e rq retries b a l w r evs \<Longrightarrow> \<not> okResult r \<Longrightarrow>
   list_all (\<lambda>x. \<not> okResult x) (map snd (fetches evs))"
  unfolding retryRun_def by blast

lemma retryRun_step:
  assumes "retryRun e rq retries b (a + 1) l' w2 r evs" and "a \<le> retries"
    and "transient r1" and "nrandom w2 = nrandom w + 1"
  shows "retryRun e rq retries b a l w r
           (EFetch rq r1 # ESleep (b * 2 ^ a + random_at e (nrandom w) * 100) # evs)"
proof -
  let ?f = "\<lambda>k. b * 2 ^ (a + k) + random_at e (nrandom w + k) * 100"
  have sl: "sleeps evs = map (\<lambda>k. ?f (Suc k)) [0..<length (sleeps evs)]"
    using assms(1,4) by (simp add: retryRun_def)
  have "?f 0 # sleeps evs = map ?f [0..<Suc (length (sleeps evs))]"
    using sl upt_shift[of ?f "length (sleeps evs)"] by simp
  moreover have "list_all transient (butlast (r1 # map snd (fetches evs)))"
    using assms(1,3) by (cases "fetches evs") (auto simp: retryRun_def)
  moreover have "r \<noteq> NetworkError \<longrightarrow> snd (last ((rq, r1) # fetches evs)) = r"
    using assms(1) by (auto simp: retryRun_def)
  moreover have "\<not> okResult r1" using assms(3) by (cases r1) (auto simp: ok_def)
  ultimately show ?thesis
    using assms(1,2) by (auto simp: retryRun_def fetches_simps sleeps_simps)
qed

lemma fetchRetryLoop_run:
  "fetchRetryLoop e rq retries b a l w = (r, w') \<Longrightarrow>
   \<exists>evs. trace w' = trace w @ evs \<and> retryRun e rq retries b a l w r evs"
proof (induction e rq retries b a l w arbitrary: r w' rule: fetchRetryLoop.induct)
  case (1 e rq retries baseDelay attempt lastErr w)
  obtain r1 w1 where f: "fetch e rq w = (r1, w1)" by (cases "fetch e rq w")
  note run = "1.prems"[unfolded fetchRetryLoop.simps[of e rq retries baseDelay attempt lastErr w]]
  have t1: "trace w1 = trace w @ [EFetch rq r1]" and n1: "nrandom w1 = nrandom w"
    using f by (auto simp: fetch_def Let_def emit_def)
  let ?w2 = "backoff e baseDelay attempt w1"
  let ?d = "baseDelay * 2 ^ attempt + random_at e (nrandom w) * 100"
  have t2: "trace ?w2 = trace w @ [EFetch rq r1, ESleep ?d]" and n2: "nrandom ?w2 = nrandom w + 1"
    using t1 n1 by (simp_all add: backoff_def Let_def emit_def)
  have single: "retryRun e rq retries baseDelay attempt lastErr w r1 [EFetch rq r1]"
    if "\<not> transient r1 \<or> \<not> attempt \<le> retries"
    using that by (auto simp: retryRun_def fetches_simps sleeps_simps)
  show ?case
  proof (cases "attempt \<le> retries")
    case False
    show ?thesis
    proof (cases lastErr)
      case True
      then have "r = NetworkError" "w' = w" using run False by simp_all
      then show ?thesis using False
        by (intro exI[of _ "[]"]) (simp add: retryRun_def fetches_simps sleeps_simps)
    next
      case no: False
      then have "r = r1" "w' = w1" using run False f by simp_all
      then show ?thesis using t1 single False by (intro exI[of _ "[EFetch rq r1]"]) simp
    qed
  next
    case True
    show ?thesis
    proof (cases "transient r1 \<and> \<not> okResult r1")
      case stop: False
      then have "r = r1" "w' = w1" using run True f
        by (cases r1; auto split: if_splits)+
      moreover have "\<not> transient r1 \<or> r1 \<noteq> NetworkError" using stop by (cases r1) auto
      ultimately show ?thesis using t1 stop True
        by (intro exI[of _ "[EFetch rq r1]"])
           (cases r1; auto simp: retryRun_def fetches_simps sleeps_simps ok_def)
    next
      case again: True
      obtain l' where rec: "fetchRetryLoop e rq retries baseDelay (attempt + 1) l' ?w2 = (r, w')"
        using run True f again by (cases r1) (auto split: if_splits)
      have ih: "\<exists>evs. trace w' = trace ?w2 @ evs \<and>
                  retryRun e rq retries baseDelay (attempt + 1) l' ?w2 r evs"
      proof (cases r1)
        case NetworkError
        have "fetchRetryLoop e rq retries baseDelay (attempt + 1) True ?w2 = (r, w')"
          using run True f NetworkError by simp
        from "1.IH"(1)[OF True f[symmetric] NetworkError this] show ?thesis
          by (auto simp: retryRun_def)
      next
        case (Response status tx js)
        have c: "\<not> ok status" "status \<in> {500, 503, 504}" using again Response by auto
        have "fetchRetryLoop e rq retries baseDelay (attempt + 1) lastErr ?w2 = (r, w')"
          using run True f Response c by simp
        from "1.IH"(2)[OF True f[symmetric] Response c this] show ?thesis
          by (auto simp: retryRun_def)
      qed
      then obtain evs where e1: "trace w' = trace ?w2 @ evs"
        and e2: "retryRun e rq retries baseDelay (attempt + 1) l' ?w2 r evs" by blast
      have "retryRun e rq retries baseDelay attempt lastErr w r (EFetch rq r1 # ESleep ?d # evs)"
        using retryRun_step[OF e2 True _ n2] again by simp
      then show ?thesis using e1 t2 by (intro exI[of _ "EFetch rq r1 # ESleep ?d # evs"]) simp
    qed
  qed
qed

lemma fetchWithRetry_run:
  "fetchWithRetry e rq retries b w = (r, w') \<Longrightarrow>
   grows {KFetch, KSleep} w w' \<and> retryRun e rq retries b 0 False w r (newEvents w w')"
proof -
  assume "fetchWithRetry e rq retries b w = (r, w')"
  then obtain evs where "trace w' = trace w @ evs" "retryRun e rq retries b 0 False w r evs"
    using fetchRetryLoop_run[of e rq retries b 0 False w r w'] by (auto simp: fetchWithRetry_def)
  then show ?thesis using retryRun_kinds[of e rq retries b 0 False w r evs]
    by (auto simp: grows_def newEvents_def)
qed

lemmas fetchWithRetry_grows = fetchWithRetry_run[THEN conjunct1]

subsection \<open>Summarising and compressing only use the network\<close>





subsection \<open>Kinds of events and what can be read from them\<close>

lemma toolRounds_Cons:
  "toolRounds (ev # evs) = (case execRoundOf ev of Some r \<Rightarrow> insert r (toolRounds evs)
                                                | None \<Rightarrow> toolRounds evs)"
  by (simp add: toolRounds_def List.map_filter_simps split: option.splits)

lemma toolRounds_iff: "r \<in> toolRounds evs \<longleftrightarrow> (\<exists>n a t. EExec r n a t \<in> set evs)"
proof (induction evs)
  case Nil
  show ?case by (simp add: toolRounds_def List.map_filter_simps)
next
  case (Cons ev evs)
  show ?case using Cons.IH by (cases ev) (auto simp: toolRounds_Cons)
qed

lemma toolRounds_append: "toolRounds (a @ b) = toolRounds a \<union> toolRounds b"
  by (simp add: toolRounds_def List.map_filter_def)

lemma toolRounds_Nil: "toolRounds [] = {}"
  by (auto simp: toolRounds_iff)

lemma toolRounds_none: "KTool \<notin> kindOf ` set evs \<Longrightarrow> toolRounds evs = {}"
  by (force simp: toolRounds_iff)

lemma declined_kind: "declined ev \<Longrightarrow> kindOf ev = KApproval"
  by (cases ev) auto

lemma declined_none: "KApproval \<notin> kindOf ` set evs \<Longrightarrow> \<not> list_ex declined evs"
  by (metis declined_kind image_eqI list_ex_iff)

lemma fetches_none: "KFetch \<notin> kindOf ` set evs \<Longrightarrow> fetches evs = []"
proof (induction evs)
  case Nil
  show ?case by (simp add: fetches_simps)
next
  case (Cons ev evs)
  then show ?case by (cases ev) (auto simp: fetches_simps)
qed

subsection \<open>The model call and the call without tools\<close>

lemma stream_grows: "KStream \<in> Ks \<Longrightarrow> grows Ks w (stream t w)"
  by (simp add: stream_def grows_emit)


lemma fetchWithRetry_requests:
  assumes "fetchWithRetry e rq retries b w = (r, w')"
    and "q \<in> fst ` set (fetches (newEvents w w'))"
  shows "q = rq"
proof -
  have rr: "retryRun e rq retries b 0 False w r (newEvents w w')"
    using fetchWithRetry_run[OF assms(1)] by (rule conjunct2)
  have "map fst (fetches (newEvents w w')) = replicate (length (fetches (newEvents w w'))) rq"
    using rr by (rule retryRun_requests)
  then have "set (map fst (fetches (newEvents w w'))) \<subseteq> {rq}"
    by (metis set_replicate_conv_if empty_subsetI subset_refl)
  then show ?thesis using assms(2) by auto
qed

lemma fetchWithRetry_some:
  assumes "fetchWithRetry e rq retries b w = (r, w')"
  shows "fetches (newEvents w w') \<noteq> []"
proof -
  have rr: "retryRun e rq retries b 0 False w r (newEvents w w')"
    using fetchWithRetry_run[OF assms(1)] by (rule conjunct2)
  show ?thesis
  proof (cases "transient r")
    case True
    have "length (sleeps (newEvents w w')) = retries + 1 - 0 \<and>
          length (sleeps (newEvents w w')) \<le> length (fetches (newEvents w w'))"
      using rr True by (rule retryRun_transient) simp
    then have "0 < length (fetches (newEvents w w'))" by linarith
    then show ?thesis by blast
  next
    case False
    then have "r \<noteq> NetworkError" by auto
    with retryRun_result[OF rr] show ?thesis by blast
  qed
qed

lemma fetchWithRetry_last:
  assumes "fetchWithRetry e rq retries b w = (r, w')" and "okResult r"
  shows "(rq, r) \<in> set (fetches (newEvents w w'))"
proof -
  have rr: "retryRun e rq retries b 0 False w r (newEvents w w')"
    using fetchWithRetry_run[OF assms(1)] by (rule conjunct2)
  let ?F = "fetches (newEvents w w')"
  have ne: "r \<noteq> NetworkError" using assms(2) by auto
  have nn: "?F \<noteq> []" and la: "snd (last ?F) = r" using retryRun_result[OF rr ne] by blast+
  have mem: "last ?F \<in> set ?F" using nn by (rule last_in_set)
  then have "fst (last ?F) \<in> fst ` set ?F" by (rule imageI)
  then have "fst (last ?F) = rq" using fetchWithRetry_requests[OF assms(1)] by blast
  then have "last ?F = (rq, r)" using la by (metis prod.collapse)
  then show ?thesis using mem by simp
qed

lemma fetchWithRetry_failed:
  assumes "fetchWithRetry e rq retries b w = (r, w')" and "\<not> okResult r"
  shows "\<not> list_ex (okResult \<circ> snd) (fetches (newEvents w w'))"
proof -
  have rr: "retryRun e rq retries b 0 False w r (newEvents w w')"
    using fetchWithRetry_run[OF assms(1)] by (rule conjunct2)
  have "list_all (\<lambda>x. \<not> okResult x) (map snd (fetches (newEvents w w')))"
    using rr assms(2) by (rule retryRun_not_ok)
  then show ?thesis by (simp add: list_ex_iff list_all_iff)
qed

lemma transient_no_answer: "transient r \<Longrightarrow> \<not> answers r"
  by (cases r rule: answerOf.cases) (auto simp: answers_def ok_def)

lemma answers_ok: "answers r \<Longrightarrow> okResult r"
  by (cases r rule: answerOf.cases) (auto simp: answers_def split: if_splits)

lemma emptyBody_ok: "emptyBody r \<Longrightarrow> okResult r \<and> \<not> answers r"
  by (cases r rule: emptyBody.cases) (auto simp: answers_def)

lemma fetchWithRetry_answers:
  assumes fw: "fetchWithRetry e rq n b w = (r, w')"
  shows "fetches (newEvents w w') \<noteq> []"
    and "okResult r \<Longrightarrow> last (fetches (newEvents w w')) = (rq, r)"
    and "\<not> list_ex (answers \<circ> snd) (butlast (fetches (newEvents w w')))"
    and "\<not> answers r \<Longrightarrow> \<not> list_ex (answers \<circ> snd) (fetches (newEvents w w'))"
proof -
  define F where "F = fetches (newEvents w w')"
  have rr: "retryRun e rq n b 0 False w r (newEvents w w')"
    using fetchWithRetry_run[OF fw] by (rule conjunct2)
  show ne: "fetches (newEvents w w') \<noteq> []" using fw by (rule fetchWithRetry_some)
  have la: "last F = (rq, r)" if "okResult r"
  proof -
    have "r \<noteq> NetworkError" using that by auto
    then have s: "snd (last F) = r" using retryRun_result[OF rr] unfolding F_def by blast
    have "last F \<in> set F" using ne unfolding F_def by (rule last_in_set)
    then have "fst (last F) \<in> fst ` set F" by (rule imageI)
    then have "fst (last F) = rq" using fetchWithRetry_requests[OF fw] unfolding F_def by blast
    then show ?thesis using s by (metis prod.collapse)
  qed
  then show "okResult r \<Longrightarrow> last (fetches (newEvents w w')) = (rq, r)" unfolding F_def .
  have "list_all transient (butlast (map snd F))"
    unfolding F_def using rr by (rule retryRun_butlast)
  then have "list_all transient (map snd (butlast F))" by (simp only: map_butlast)
  then have "\<forall>p \<in> set (butlast F). transient (snd p)" by (simp add: list_all_iff)
  then have bl: "\<not> list_ex (answers \<circ> snd) (butlast F)"
    using transient_no_answer by (auto simp: list_ex_iff)
  then show "\<not> list_ex (answers \<circ> snd) (butlast (fetches (newEvents w w')))" unfolding F_def .
  show "\<not> list_ex (answers \<circ> snd) (fetches (newEvents w w'))" if na: "\<not> answers r"
  proof (cases "okResult r")
    case True
    have "F = butlast F @ [last F]" using ne unfolding F_def by simp
    then have "set F = set (butlast F @ [last F])" by simp
    then have "set F = set (butlast F) \<union> {last F}" by (simp only: set_append list.set Un_insert_right Un_empty_right)
    then have "list_ex (answers \<circ> snd) F
                 = (list_ex (answers \<circ> snd) (butlast F) \<or> answers (snd (last F)))"
      by (auto simp: list_ex_iff)
    then show ?thesis using bl la[OF True] na unfolding F_def by simp
  next
    case False
    have "list_all (\<lambda>x. \<not> okResult x) (map snd (fetches (newEvents w w')))"
      using rr False by (rule retryRun_not_ok)
    then show ?thesis by (auto simp: list_ex_iff list_all_iff dest: answers_ok)
  qed
qed

lemma noToolsRun_Nil: "noToolsRun [] cs None []"
  by (simp add: noToolsRun_def fetches_simps)

lemma noToolsRun_I:
  assumes "\<And>q. q \<in> fst ` set (fetches evs) \<Longrightarrow>
             \<not> req_tools q \<and> req_contents q = cs \<and> req_model q \<in> set fl"
    and "\<And>js m. res = Some (js, m) \<Longrightarrow>
           fetches evs \<noteq> [] \<and> req_model (fst (last (fetches evs))) = m \<and>
           answerOf (snd (last (fetches evs))) = Some js \<and>
           \<not> list_ex (answers \<circ> snd) (butlast (fetches evs))"
    and "res = None \<Longrightarrow> \<not> list_ex (answers \<circ> snd) (fetches evs)"
    and "res = None \<Longrightarrow> set fl \<subseteq> req_model ` fst ` set (fetches evs)
           \<or> (fetches evs \<noteq> [] \<and> emptyBody (snd (last (fetches evs))))"
  shows "noToolsRun fl cs res evs"
  unfolding noToolsRun_def using assms by (cases res) auto

lemma noToolsRun_D:
  assumes "noToolsRun fl cs res evs"
  shows "\<And>q. q \<in> fst ` set (fetches evs) \<Longrightarrow>
             \<not> req_tools q \<and> req_contents q = cs \<and> req_model q \<in> set fl"
    and "\<And>js m. res = Some (js, m) \<Longrightarrow>
           fetches evs \<noteq> [] \<and> req_model (fst (last (fetches evs))) = m \<and>
           answerOf (snd (last (fetches evs))) = Some js \<and>
           \<not> list_ex (answers \<circ> snd) (butlast (fetches evs))"
    and "res = None \<Longrightarrow> \<not> list_ex (answers \<circ> snd) (fetches evs)"
    and "res = None \<Longrightarrow> set fl \<subseteq> req_model ` fst ` set (fetches evs)
           \<or> (fetches evs \<noteq> [] \<and> emptyBody (snd (last (fetches evs))))"
  using assms unfolding noToolsRun_def by (auto split: option.splits)

lemma finalAnswerWithoutTools_run:
  "finalAnswerWithoutTools e fl cs w = (res, w') \<Longrightarrow>
   grows {KFetch, KSleep} w w' \<and> noToolsRun fl cs res (newEvents w w')"
proof (induction fl arbitrary: w)
  case Nil
  then have "res = None" "w' = w" by simp_all
  then show ?case by (simp add: grows_refl newEvents_same noToolsRun_Nil)
next
  case (Cons mdl rest)
  define rq where "rq = \<lparr>req_model = mdl, req_tools = False, req_contents = cs\<rparr>"
  obtain r1 w1 where fw: "fetchWithRetry e rq 1 500 w = (r1, w1)"
    by (cases "fetchWithRetry e rq 1 500 w")
  have unf: "finalAnswerWithoutTools e (mdl # rest) cs w =
      (if answers r1 then (Some (the (answerOf r1), mdl), w1)
       else if emptyBody r1 then (None, w1)
       else finalAnswerWithoutTools e rest cs w1)"
  proof (cases r1)
    case NetworkError
    then show ?thesis using fw by (simp add: rq_def answers_def)
  next
    case (Response status tx b)
    then show ?thesis using fw by (cases b) (simp_all add: rq_def answers_def)
  qed
  have g1: "grows {KFetch, KSleep} w w1" using fw by (rule fetchWithRetry_grows)
  define F1 where "F1 = fetches (newEvents w w1)"
  note a1 = fetchWithRetry_answers[OF fw, folded F1_def]
  have rq1: "\<not> req_tools q \<and> req_contents q = cs \<and> req_model q = mdl" if "q \<in> fst ` set F1" for q
  proof -
    have "q = rq" using fetchWithRetry_requests[OF fw] that unfolding F1_def by blast
    then show ?thesis by (simp add: rq_def)
  qed
  have all1: "\<not> req_tools q \<and> req_contents q = cs \<and> req_model q \<in> set (mdl # rest)"
    if "q \<in> fst ` set F1" for q
    using rq1[OF that] by simp
  have some1: "F1 \<noteq> []" by (rule a1(1))
  have has1: "mdl \<in> req_model ` fst ` set F1"
  proof -
    obtain p where p: "p \<in> set F1" using some1 by (cases F1) auto
    then have qin: "fst p \<in> fst ` set F1" by (rule imageI)
    have "req_model (fst p) = mdl" using rq1[OF qin] by blast
    then have "mdl = req_model (fst p)" by (rule sym)
    then show ?thesis using qin by (rule image_eqI[where f = req_model and x = "fst p"])
  qed
  show ?case
  proof (cases "answers r1")
    case True
    obtain js where js: "answerOf r1 = Some js" using True by (auto simp: answers_def)
    have res: "res = Some (js, mdl)" and w': "w' = w1"
      using Cons.prems True js unfolding unf by simp_all
    have la: "last F1 = (rq, r1)" using a1(2) answers_ok[OF True] by simp
    have "noToolsRun (mdl # rest) cs res (newEvents w w1)"
    proof (rule noToolsRun_I)
      fix q assume "q \<in> fst ` set (fetches (newEvents w w1))"
      then show "\<not> req_tools q \<and> req_contents q = cs \<and> req_model q \<in> set (mdl # rest)"
        using all1 unfolding F1_def by blast
    next
      fix js' m assume "res = Some (js', m)"
      then have "js' = js" "m = mdl" using res by simp_all
      then show "fetches (newEvents w w1) \<noteq> [] \<and>
           req_model (fst (last (fetches (newEvents w w1)))) = m \<and>
           answerOf (snd (last (fetches (newEvents w w1)))) = Some js' \<and>
           \<not> list_ex (answers \<circ> snd) (butlast (fetches (newEvents w w1)))"
        using some1 la js a1(3) unfolding F1_def by (simp add: rq_def)
    next
      assume "res = None"
      then show "\<not> list_ex (answers \<circ> snd) (fetches (newEvents w w1))" using res by simp
    next
      assume "res = None"
      then show "set (mdl # rest) \<subseteq> req_model ` fst ` set (fetches (newEvents w w1))
           \<or> (fetches (newEvents w w1) \<noteq> [] \<and> emptyBody (snd (last (fetches (newEvents w w1)))))"
        using res by simp
    qed
    then show ?thesis using g1 w' by simp
  next
    case False
    have bad1: "\<not> list_ex (answers \<circ> snd) F1" using a1(4)[OF False] .
    show ?thesis
    proof (cases "emptyBody r1")
      case True
      have res: "res = None" and w': "w' = w1"
        using Cons.prems False True unfolding unf by simp_all
      have la: "last F1 = (rq, r1)" using a1(2) emptyBody_ok[OF True] by simp
      have "noToolsRun (mdl # rest) cs res (newEvents w w1)"
      proof (rule noToolsRun_I)
        fix q assume "q \<in> fst ` set (fetches (newEvents w w1))"
        then show "\<not> req_tools q \<and> req_contents q = cs \<and> req_model q \<in> set (mdl # rest)"
          using all1 unfolding F1_def by blast
      next
        fix js' m assume "res = Some (js', m)"
        then show "fetches (newEvents w w1) \<noteq> [] \<and>
           req_model (fst (last (fetches (newEvents w w1)))) = m \<and>
           answerOf (snd (last (fetches (newEvents w w1)))) = Some js' \<and>
           \<not> list_ex (answers \<circ> snd) (butlast (fetches (newEvents w w1)))"
          using res by simp
      next
        show "\<not> list_ex (answers \<circ> snd) (fetches (newEvents w w1))"
          using bad1 unfolding F1_def .
      next
        show "set (mdl # rest) \<subseteq> req_model ` fst ` set (fetches (newEvents w w1))
           \<or> (fetches (newEvents w w1) \<noteq> [] \<and> emptyBody (snd (last (fetches (newEvents w w1)))))"
          using some1 la True unfolding F1_def by simp
      qed
      then show ?thesis using g1 w' by simp
    next
      case notEmpty: False
      have rec: "finalAnswerWithoutTools e rest cs w1 = (res, w')"
        using Cons.prems False notEmpty unfolding unf by simp
      note ih = Cons.IH[OF rec]
      have g2: "grows {KFetch, KSleep} w1 w'" using ih by (rule conjunct1)
      define F2 where "F2 = fetches (newEvents w1 w')"
      have ne: "newEvents w w' = newEvents w w1 @ newEvents w1 w'" using g1 g2 by (rule newEvents_trans)
      have F: "fetches (newEvents w w') = F1 @ F2" unfolding ne F1_def F2_def by (rule fetches_append)
      have n2: "noToolsRun rest cs res (newEvents w1 w')" using ih by (rule conjunct2)
      note d2 = noToolsRun_D[OF n2, folded F2_def]
      have "noToolsRun (mdl # rest) cs res (newEvents w w')"
      proof (rule noToolsRun_I; unfold F)
        fix q assume "q \<in> fst ` set (F1 @ F2)"
        then have "q \<in> fst ` set F1 \<or> q \<in> fst ` set F2" by auto
        then show "\<not> req_tools q \<and> req_contents q = cs \<and> req_model q \<in> set (mdl # rest)"
          using all1 d2(1) by auto
      next
        fix js m assume r: "res = Some (js, m)"
        note s = d2(2)[OF r]
        have "F2 \<noteq> []" using s by blast
        then have "last (F1 @ F2) = last F2" "butlast (F1 @ F2) = F1 @ butlast F2"
          by (simp_all add: butlast_append)
        then show "F1 @ F2 \<noteq> [] \<and> req_model (fst (last (F1 @ F2))) = m \<and>
           answerOf (snd (last (F1 @ F2))) = Some js \<and>
           \<not> list_ex (answers \<circ> snd) (butlast (F1 @ F2))"
          using s bad1 by simp
      next
        assume "res = None"
        then show "\<not> list_ex (answers \<circ> snd) (F1 @ F2)" using d2(3) bad1 by simp
      next
        assume r: "res = None"
        from d2(4)[OF r] show "set (mdl # rest) \<subseteq> req_model ` fst ` set (F1 @ F2)
           \<or> (F1 @ F2 \<noteq> [] \<and> emptyBody (snd (last (F1 @ F2))))"
        proof
          assume "set rest \<subseteq> req_model ` fst ` set F2"
          then have "set (mdl # rest) \<subseteq> req_model ` fst ` set (F1 @ F2)" using has1 by auto
          then show ?thesis by (rule disjI1)
        next
          assume "F2 \<noteq> [] \<and> emptyBody (snd (last F2))"
          then show ?thesis by simp
        qed
      qed
      moreover have "grows {KFetch, KSleep} w w'" using g1 g2 by (rule grows_trans)
      ultimately show ?thesis by simp
    qed
  qed
qed

subsection \<open>Approval and execution\<close>

lemma requestToolApproval_run:
  assumes "requestToolApproval e S calls w = (b, w')"
  shows "grows {KApproval} w w'"
    and "newEvents w w' = (if autoApprove S then []
           else [EApprovalRequest calls, EApprovalResponse (approval_at e (napproval w) calls)])"
    and "b = (autoApprove S \<or> approval_at e (napproval w) calls = Approved)"
proof -
  show "grows {KApproval} w w'"
    using assms
    by (cases "approval_at e (napproval w) calls")
       (auto simp: requestToolApproval_def Let_def emit_def grows_def split: if_splits)
  show "newEvents w w' = (if autoApprove S then []
           else [EApprovalRequest calls, EApprovalResponse (approval_at e (napproval w) calls)])"
    using assms
    by (cases "approval_at e (napproval w) calls")
       (auto simp: requestToolApproval_def Let_def emit_def newEvents_def split: if_splits)
  show "b = (autoApprove S \<or> approval_at e (napproval w) calls = Approved)"
    using assms
    by (cases "approval_at e (napproval w) calls")
       (auto simp: requestToolApproval_def Let_def emit_def split: if_splits)
qed

lemma executeCalls_run:
  "executeCalls e rnd calls tab w = (results, tab', w') \<Longrightarrow>
   grows {KTool} w w' \<and> toolRounds (newEvents w w') = (if calls = [] then {} else {rnd})"
proof (induction calls arbitrary: tab w results tab' w')
  case Nil
  then have "w' = w" by simp
  then show ?case by (simp add: grows_refl newEvents_same toolRounds_Nil)
next
  case (Cons c cs)
  let ?w1 = "emit (EToolStatus (call_name c)) w"
  let ?result = "tool_at e (ntool ?w1) (call_name c) (call_args c) tab"
  let ?w2 = "emit (EExec rnd (call_name c) (call_args c) tab) (?w1\<lparr>ntool := ntool ?w1 + 1\<rparr>)"
  let ?newTab = "orElse (get_prop ?result (str ''newTabId'')) (get_prop ?result (str ''switchedTabId''))"
  let ?tab1 = "if truthy ?result \<and> truthy ?newTab then ?newTab else tab"
  define w2 where "w2 = ?w2"
  define tab1 where "tab1 = ?tab1"
  obtain rest tab2 w3 where rec: "executeCalls e rnd cs tab1 w2 = (rest, tab2, w3)"
    by (cases "executeCalls e rnd cs tab1 w2") auto
  have w': "w' = w3"
    using Cons.prems rec unfolding w2_def tab1_def by (simp add: Let_def)
  have t2: "trace w2 = trace w @ [EToolStatus (call_name c), EExec rnd (call_name c) (call_args c) tab]"
    by (simp add: w2_def emit_def)
  have g1: "grows {KTool} w w2" unfolding grows_def using t2 by auto
  have n1: "newEvents w w2 = [EToolStatus (call_name c), EExec rnd (call_name c) (call_args c) tab]"
    using t2 by (simp add: newEvents_def)
  note ih = Cons.IH[OF rec]
  have g2: "grows {KTool} w2 w3" using ih by (rule conjunct1)
  have ne: "newEvents w w3 = newEvents w w2 @ newEvents w2 w3" using g1 g2 by (rule newEvents_trans)
  have tr1: "toolRounds (newEvents w w2) = {rnd}"
    unfolding n1 by (simp add: toolRounds_Cons toolRounds_Nil)
  have tr2: "toolRounds (newEvents w2 w3) \<subseteq> {rnd}" using ih by (auto split: if_splits)
  have "toolRounds (newEvents w w3) = {rnd}"
    unfolding ne toolRounds_append using tr1 tr2 by blast
  moreover have "grows {KTool} w w3" using g1 g2 by (rule grows_trans)
  ultimately show ?case using w' by simp
qed

subsection \<open>Refusals\<close>

lemma declineLast_none: "\<not> list_ex declined evs \<Longrightarrow> declineLast res evs"
  by (simp add: declineLast_def)


lemma no_declined: "kindOf ` set evs \<subseteq> Ks \<Longrightarrow> KApproval \<notin> Ks \<Longrightarrow> \<not> list_ex declined evs"
  by (rule declined_none) blast

lemma no_tools: "kindOf ` set evs \<subseteq> Ks \<Longrightarrow> KTool \<notin> Ks \<Longrightarrow> toolRounds evs = {}"
  by (rule toolRounds_none) blast

lemma roundsRun_Inl:
  assumes "lo \<le> k" "k \<le> hi" "toolRounds evs = {lo..<k}" "out \<noteq> Failure maxRoundsMessage"
    "declineLast (Inl out) evs" "q \<longrightarrow> KApproval \<notin> kindOf ` set evs"
  shows "roundsRun q lo hi (Inl out) evs"
  unfolding roundsRun_def using assms by auto

lemma roundsRun_Inr:
  assumes "toolRounds evs = {lo..<hi}" "\<not> list_ex declined evs" "q \<longrightarrow> KApproval \<notin> kindOf ` set evs"
  shows "roundsRun q lo hi (Inr st) evs"
  unfolding roundsRun_def using assms by (simp add: declineLast_none)




lemma roundsRun_quiet:
  assumes "kindOf ` set a \<subseteq> {KFetch, KSleep, KStream}" and "out \<noteq> Failure maxRoundsMessage"
  shows "roundsRun q rnd (rnd + 1) (Inl out) a"
proof (rule roundsRun_Inl[where k = rnd])
  show "toolRounds a = {rnd..<rnd}" using assms(1) by (simp add: no_tools)
  show "declineLast (Inl out) a"
    by (rule declineLast_none) (rule no_declined[OF assms(1)], simp)
  show "q \<longrightarrow> KApproval \<notin> kindOf ` set a" using assms(1) by auto
qed (simp_all add: assms(2))

subsection \<open>One round\<close>

lemma int_single: "{r..<r + 1} = {r::int}"
  by auto

lemma messages_differ:
  "declinedMessage \<noteq> maxRoundsMessage"
  "allFailedMessage \<noteq> maxRoundsMessage"
  "str ''API error '' @ x \<noteq> maxRoundsMessage"
  by (simp_all add: declinedMessage_def maxRoundsMessage_def allFailedMessage_def str_def)



lemma finishRound_run:
  assumes "finishRound e S rnd candidate usedModel calls st w = (res, w')"
  shows "grows {KApproval, KTool} w w' \<and>
         roundsRun (autoApprove S) rnd (rnd + 1) res (newEvents w w')"
proof (cases "calls = []")
  case True
  then have r: "w' = w" "res = Inl (Answer (extractTextFromCandidate candidate) usedModel)"
    using assms by (simp_all add: finishRound_def)
  have "roundsRun (autoApprove S) rnd (rnd + 1) res []"
    unfolding r(2) by (rule roundsRun_quiet) simp_all
  then show ?thesis using r by (simp add: grows_refl newEvents_same)
next
  case False
  obtain b w1 where ap: "requestToolApproval e S calls w = (b, w1)"
    by (cases "requestToolApproval e S calls w")
  note a1 = requestToolApproval_run[OF ap]
  have g1: "grows {KApproval, KTool} w w1" using a1(1) by (rule grows_mono) simp
  have t1: "toolRounds (newEvents w w1) = {}"
    using grows_kinds[OF a1(1)] by (rule no_tools) simp
  show ?thesis
  proof (cases b)
    case no: False
    have r: "res = Inl (Failure declinedMessage)" "w' = w1"
      using assms False ap no by (simp_all add: finishRound_def)
    have na: "\<not> autoApprove S" "approval_at e (napproval w) calls \<noteq> Approved"
      using a1(3) no by simp_all
    have ev: "newEvents w w1 = [EApprovalRequest calls, EApprovalResponse (approval_at e (napproval w) calls)]"
      using a1(2) na by simp
    have "roundsRun (autoApprove S) rnd (rnd + 1) (Inl (Failure declinedMessage)) (newEvents w w1)"
    proof (rule roundsRun_Inl[where k = rnd])
      show "toolRounds (newEvents w w1) = {rnd..<rnd}" using t1 by simp
      show "Failure declinedMessage \<noteq> Failure maxRoundsMessage" using messages_differ(1) by simp
      show "declineLast (Inl (Failure declinedMessage)) (newEvents w w1)"
        unfolding ev declineLast_def using na by simp
      show "autoApprove S \<longrightarrow> KApproval \<notin> kindOf ` set (newEvents w w1)" using na by simp
    qed simp_all
    then show ?thesis using r g1 by simp
  next
    case yes: True
    obtain results tab w2 where ex: "executeCalls e rnd calls (currentTabId st) w1 = (results, tab, w2)"
      by (cases "executeCalls e rnd calls (currentTabId st) w1") auto
    have r: "w' = w2" "res = Inl Threw \<or> (\<exists>st'. res = Inr st')"
      using assms False ap yes ex by (auto simp: finishRound_def Let_def split: option.splits)
    note e1 = executeCalls_run[OF ex]
    have g2: "grows {KApproval, KTool} w1 w2" using e1[THEN conjunct1] by (rule grows_mono) simp
    have ne: "newEvents w w2 = newEvents w w1 @ newEvents w1 w2" using g1 g2 by (rule newEvents_trans)
    have t2: "toolRounds (newEvents w1 w2) = {rnd}" using e1 False by simp
    have k2: "kindOf ` set (newEvents w1 w2) \<subseteq> {KTool}" using e1[THEN conjunct1] by (rule grows_kinds)
    have d1: "\<not> list_ex declined (newEvents w w1)"
    proof (cases "autoApprove S")
      case True
      then show ?thesis using a1(2) by simp
    next
      case False
      then have "approval_at e (napproval w) calls = Approved" using a1(3) yes by simp
      then show ?thesis using a1(2) False by simp
    qed
    have d2: "\<not> list_ex declined (newEvents w1 w2)" using k2 by (rule no_declined) simp
    have tr: "toolRounds (newEvents w w2) = {rnd..<rnd + 1}"
      unfolding ne by (simp add: toolRounds_append t1 t2 int_single)
    have dd: "\<not> list_ex declined (newEvents w w2)" unfolding ne using d1 d2 by simp
    have ka: "autoApprove S \<longrightarrow> KApproval \<notin> kindOf ` set (newEvents w w2)"
      unfolding ne using a1(2) k2 by auto
    have "roundsRun (autoApprove S) rnd (rnd + 1) res (newEvents w w2)"
      using r(2)
    proof
      assume t: "res = Inl Threw"
      have "roundsRun (autoApprove S) rnd (rnd + 1) (Inl Threw) (newEvents w w2)"
      proof (rule roundsRun_Inl[where k = "rnd + 1"])
        show "toolRounds (newEvents w w2) = {rnd..<rnd + 1}" by (rule tr)
        show "declineLast (Inl Threw) (newEvents w w2)" using dd by (rule declineLast_none)
        show "autoApprove S \<longrightarrow> KApproval \<notin> kindOf ` set (newEvents w w2)" by (rule ka)
      qed simp_all
      then show ?thesis using t by simp
    next
      assume "\<exists>st'. res = Inr st'"
      then obtain st' where s: "res = Inr st'" by blast
      have "roundsRun (autoApprove S) rnd (rnd + 1) (Inr st') (newEvents w w2)"
        using tr dd ka by (rule roundsRun_Inr)
      then show ?thesis using s by simp
    qed
    moreover have "grows {KApproval, KTool} w w2" using g1 g2 by (rule grows_trans)
    ultimately show ?thesis using r(1) by simp
  qed
qed



subsection \<open>All rounds\<close>


subsection \<open>After the rounds\<close>

lemma stream_new: "newEvents w (stream t w) = [EStream t]"
  by (simp add: stream_def newEvents_emit)


subsection \<open>Loop detection\<close>

lemma finishRound_keeps:
  assumes "finishRound e S rnd candidate usedModel calls st0 w = (Inr st', w')"
  shows "lastCallSignature st' = lastCallSignature st0 \<and> repeatCount st' = repeatCount st0"
proof (cases "calls = []")
  case True
  then show ?thesis using assms by (simp add: finishRound_def)
next
  case False
  obtain b w1 where ap: "requestToolApproval e S calls w = (b, w1)"
    by (cases "requestToolApproval e S calls w")
  obtain results tab w2 where ex: "executeCalls e rnd calls (currentTabId st0) w1 = (results, tab, w2)"
    by (cases "executeCalls e rnd calls (currentTabId st0) w1") auto
  show ?thesis using assms False ap ex by (auto simp: finishRound_def Let_def split: if_splits option.splits)
qed

lemma finishRound_no_fetch:
  assumes "finishRound e S rnd candidate usedModel calls st0 w = (res, w')"
  shows "kindOf ` set (newEvents w w') \<subseteq> {KApproval, KTool}"
  using finishRound_run[OF assms, THEN conjunct1] by (rule grows_kinds)

lemma noToolsRun_some:
  assumes "noToolsRun fl cs fr evs" and "fl \<noteq> []"
  shows "fetches evs \<noteq> []"
proof (cases fr)
  case None
  then have "set fl \<subseteq> req_model ` fst ` set (fetches evs) \<or> fetches evs \<noteq> []"
    using assms(1) by (auto simp: noToolsRun_def)
  then show ?thesis using assms(2) by (cases fl) auto
next
  case (Some a)
  then show ?thesis using assms(1) by (cases a) (simp add: noToolsRun_def)
qed

lemma workflow_names:
  "isLegitimateWorkflow calls \<longleftrightarrow>
     (\<exists>c \<in> set calls. call_name c \<in> {str ''searchWeb'', str ''getSearchResults'',
        str ''clickSearchResultByDomain'', str ''extractText'', str ''waitForSelector''})"
  by (simp add: isLegitimateWorkflow_def workflowTools_def list_ex_iff)

lemma decideRound_repeat:
  assumes "decideRound e S fl rnd candidate usedModel cs st w = (res, w')"
    and "calls = getFunctionCallsFromCandidate e candidate"
    and "sg = json_stringify e calls"
    and "st1 = detectRepeat sg calls (st\<lparr>ls_contents := cs\<rparr>)"
  shows "lastCallSignature st1 = Some sg \<and>
         (calls \<noteq> [] \<and> lastCallSignature st = Some sg \<longrightarrow> repeatCount st1 = repeatCount st + 1) \<and>
         (calls = [] \<or> lastCallSignature st \<noteq> Some sg \<longrightarrow> repeatCount st1 = 0) \<and>
         repeatThreshold calls =
           (if \<exists>c \<in> set calls. call_name c \<in> {str ''searchWeb'', str ''getSearchResults'',
                 str ''clickSearchResultByDomain'', str ''extractText'', str ''waitForSelector''}
            then 4 else 2) \<and>
         (\<forall>st'. res = Inr st' \<longrightarrow> lastCallSignature st' = Some sg \<and> repeatCount st' = repeatCount st1) \<and>
         (repeatCount st1 < repeatThreshold calls \<longrightarrow>
            kindOf ` set (newEvents w w') \<subseteq> {KApproval, KTool}) \<and>
         (repeatThreshold calls \<le> repeatCount st1 \<longrightarrow>
            (\<exists>fr evs rest.
               newEvents w w' = EStream repeatMessage # evs @ rest \<and>
               kindOf ` set evs \<subseteq> {KFetch, KSleep} \<and>
               kindOf ` set rest \<subseteq> {KApproval, KTool} \<and>
               noToolsRun fl (pushCandidate cs candidate @ [stopInstruction]) fr evs \<and>
               (fl \<noteq> [] \<longrightarrow> fetches evs \<noteq> []) \<and>
               (\<forall>js m. fr = Some (js, m) \<longrightarrow>
                  res = Inl (Answer (extractTextFromCandidate js) m) \<and> rest = [])))"
proof -
  have A: "lastCallSignature st1 = Some sg"
    unfolding assms(4) by (auto simp: detectRepeat_def)
  have B: "calls \<noteq> [] \<and> lastCallSignature st = Some sg \<longrightarrow> repeatCount st1 = repeatCount st + 1"
    unfolding assms(4) by (auto simp: detectRepeat_def)
  have C: "calls = [] \<or> lastCallSignature st \<noteq> Some sg \<longrightarrow> repeatCount st1 = 0"
    unfolding assms(4) by (auto simp: detectRepeat_def)
  have D: "repeatThreshold calls =
           (if \<exists>c \<in> set calls. call_name c \<in> {str ''searchWeb'', str ''getSearchResults'',
                 str ''clickSearchResultByDomain'', str ''extractText'', str ''waitForSelector''}
            then 4 else 2)"
    unfolding repeatThreshold_def workflow_names ..
  show ?thesis
  proof (cases "repeatThreshold calls \<le> repeatCount st1")
    case False
    then have fin: "finishRound e S rnd candidate usedModel calls st1 w = (res, w')"
      using assms by (simp add: decideRound_def Let_def)
    have E: "\<forall>st'. res = Inr st' \<longrightarrow> lastCallSignature st' = Some sg \<and> repeatCount st' = repeatCount st1"
    proof (intro allI impI)
      fix st' assume "res = Inr st'"
      from finishRound_keeps[OF fin[unfolded this]] A show
        "lastCallSignature st' = Some sg \<and> repeatCount st' = repeatCount st1" by simp
    qed
    have F: "kindOf ` set (newEvents w w') \<subseteq> {KApproval, KTool}"
      using fin by (rule finishRound_no_fetch)
    show ?thesis using A B C D E F False by simp
  next
    case True
    define w3 where "w3 = stream repeatMessage w"
    define cs' where "cs' = pushCandidate cs candidate @ [stopInstruction]"
    obtain fr w4 where fa: "finalAnswerWithoutTools e fl cs' w3 = (fr, w4)"
      by (cases "finalAnswerWithoutTools e fl cs' w3")
    note f1 = finalAnswerWithoutTools_run[OF fa]
    have g3: "grows UNIV w w3" unfolding w3_def by (rule stream_grows) simp
    have g4: "grows UNIV w3 w4" using f1[THEN conjunct1] by (rule grows_mono) simp
    have g34: "grows UNIV w w4" using g3 g4 by (rule grows_trans)
    have ne4: "newEvents w w4 = EStream repeatMessage # newEvents w3 w4"
      using newEvents_trans[OF g3 g4] by (simp add: w3_def stream_new)
    have k4: "kindOf ` set (newEvents w3 w4) \<subseteq> {KFetch, KSleep}"
      using f1[THEN conjunct1] by (rule grows_kinds)
    have nt: "noToolsRun fl cs' fr (newEvents w3 w4)" using f1 by (rule conjunct2)
    have some: "fl \<noteq> [] \<longrightarrow> fetches (newEvents w3 w4) \<noteq> []" using noToolsRun_some[OF nt] by blast
    show ?thesis
    proof (cases fr)
      case (Some a)
      obtain js mdl where a: "a = (js, mdl)" by (cases a)
      have r: "w' = w4" "res = Inl (Answer (extractTextFromCandidate js) mdl)"
        using assms True fa Some a by (simp_all add: decideRound_def Let_def w3_def cs'_def)
      have G: "\<exists>fr evs rest.
               newEvents w w' = EStream repeatMessage # evs @ rest \<and>
               kindOf ` set evs \<subseteq> {KFetch, KSleep} \<and>
               kindOf ` set rest \<subseteq> {KApproval, KTool} \<and>
               noToolsRun fl (pushCandidate cs candidate @ [stopInstruction]) fr evs \<and>
               (fl \<noteq> [] \<longrightarrow> fetches evs \<noteq> []) \<and>
               (\<forall>js m. fr = Some (js, m) \<longrightarrow>
                  res = Inl (Answer (extractTextFromCandidate js) m) \<and> rest = [])"
        apply (rule exI[where x = fr], rule exI[where x = "newEvents w3 w4"], rule exI[where x = "[]"])
        using ne4 k4 nt some r Some a by (simp add: cs'_def)
      have E: "\<forall>st'. res = Inr st' \<longrightarrow> lastCallSignature st' = Some sg \<and> repeatCount st' = repeatCount st1"
        using r by simp
      show ?thesis using A B C D E G True by simp
    next
      case None
      then have fin: "finishRound e S rnd candidate usedModel calls (st1\<lparr>ls_contents := cs'\<rparr>) w4 = (res, w')"
        using assms True fa by (simp add: decideRound_def Let_def w3_def cs'_def)
      have g5: "grows UNIV w4 w'" using finishRound_run[OF fin, THEN conjunct1] by (rule grows_mono) simp
      have ne: "newEvents w w' = EStream repeatMessage # newEvents w3 w4 @ newEvents w4 w'"
        using newEvents_trans[OF g34 g5] ne4 by simp
      have k5: "kindOf ` set (newEvents w4 w') \<subseteq> {KApproval, KTool}"
        using fin by (rule finishRound_no_fetch)
      have G: "\<exists>fr evs rest.
               newEvents w w' = EStream repeatMessage # evs @ rest \<and>
               kindOf ` set evs \<subseteq> {KFetch, KSleep} \<and>
               kindOf ` set rest \<subseteq> {KApproval, KTool} \<and>
               noToolsRun fl (pushCandidate cs candidate @ [stopInstruction]) fr evs \<and>
               (fl \<noteq> [] \<longrightarrow> fetches evs \<noteq> []) \<and>
               (\<forall>js m. fr = Some (js, m) \<longrightarrow>
                  res = Inl (Answer (extractTextFromCandidate js) m) \<and> rest = [])"
        apply (rule exI[where x = fr], rule exI[where x = "newEvents w3 w4"],
               rule exI[where x = "newEvents w4 w'"])
        using ne k4 k5 nt some None by (simp add: cs'_def)
      have E: "\<forall>st'. res = Inr st' \<longrightarrow> lastCallSignature st' = Some sg \<and> repeatCount st' = repeatCount st1"
      proof (intro allI impI)
        fix st' assume "res = Inr st'"
        from finishRound_keeps[OF fin[unfolded this]] A show
          "lastCallSignature st' = Some sg \<and> repeatCount st' = repeatCount st1" by simp
      qed
      show ?thesis using A B C D E G True by simp
    qed
  qed
qed

lemma roundBody_decide:
  assumes "roundBody e S fl rnd st w = (res, w')"
    and "compressIfNeeded e S (ls_contents st) 10000 w = (cs, w1)"
    and "modelCall e fl cs w1 = (Inr (candidate, usedModel), w2)"
  shows "decideRound e S fl rnd candidate usedModel cs st w2 = (res, w')"
  using assms by (simp add: roundBody_def)

lemma roundsLoop_two:
  assumes "rnd + 1 < maxRounds"
    and "roundBody e S fl rnd st w = (Inr st1, w1)"
    and "roundBody e S fl (rnd + 1) st1 w1 = (res, w')"
  shows "roundsLoop e S fl maxRounds rnd st w =
           (case res of Inl r \<Rightarrow> (Inl r, w') | Inr st2 \<Rightarrow> roundsLoop e S fl maxRounds (rnd + 2) st2 w')"
proof -
  have a: "rnd < maxRounds" using assms(1) by simp
  have e: "rnd + 1 + 1 = rnd + 2" by simp
  have "roundsLoop e S fl maxRounds rnd st w = roundsLoop e S fl maxRounds (rnd + 1) st1 w1"
    using a assms(2) by (subst roundsLoop.simps) simp
  also have "\<dots> = (case res of Inl r \<Rightarrow> (Inl r, w')
                     | Inr st2 \<Rightarrow> roundsLoop e S fl maxRounds (rnd + 2) st2 w')"
    using assms(1,3) by (subst roundsLoop.simps) (simp add: e split: sum.splits)
  finally show ?thesis .
qed

subsection \<open>Retries and the fallback models\<close>

lemma fetchWithRetry_not_retried:
  assumes "\<not> transient (fetch_at e (nfetch w) rq)"
  shows "fetchWithRetry e rq retries b w = fetch e rq w"
proof (cases "fetch_at e (nfetch w) rq")
  case NetworkError
  then show ?thesis using assms by simp
next
  case (Response status tx js)
  then show ?thesis using assms
    by (simp add: fetchWithRetry_def fetchRetryLoop.simps[of e rq retries b 0 False w] fetch_world)
qed


subsection \<open>Runs against concrete backends\<close>

lemma fl_init:
  "fallbackList initialSTATE = [str ''gemini-2.5-flash-lite'', str ''gemini-2.5-flash'', str ''gemini-1.5-flash'']"
  by (simp add: fallbackList_def uniq_def preferredModel_def initialSTATE_def str_def)

lemma digits_503: "digits 503 = str ''503''"
  by (simp add: digits.simps str_def)

lemma digits_401: "digits 401 = str ''401''"
  by (simp add: digits.simps str_def)

lemma compress_empty: "compressIfNeeded e S [] 10000 w = ([], w)"
  by (simp add: compressIfNeeded_def estimateContentChars_def)

lemma status_fetch_transient:
  "n \<in> {500, 503, 504} \<Longrightarrow> fetchWithRetry (statusEnv n) rq 2 700 w =
     (Response n (str ''unavailable'') (Json None),
      w\<lparr>nfetch := nfetch w + 4, nrandom := nrandom w + 3,
        trace := trace w @ [EFetch rq (Response n (str ''unavailable'') (Json None)), ESleep 700,
                            EFetch rq (Response n (str ''unavailable'') (Json None)), ESleep 1400,
                            EFetch rq (Response n (str ''unavailable'') (Json None)), ESleep 2800,
                            EFetch rq (Response n (str ''unavailable'') (Json None))]\<rparr>)"
  by (auto simp add: fetchWithRetry_def fetchRetryLoop.simps fetch_def backoff_def emit_def statusEnv_def
        ok_def Let_def)

lemma status_fetch_401:
  "fetchWithRetry (statusEnv 401) rq 2 700 w =
     (Response 401 (str ''unavailable'') (Json None),
      w\<lparr>nfetch := nfetch w + 1,
        trace := trace w @ [EFetch rq (Response 401 (str ''unavailable'') (Json None))]\<rparr>)"
  by (simp add: fetchWithRetry_def fetchRetryLoop.simps fetch_def backoff_def emit_def statusEnv_def
        ok_def Let_def)

lemma busy_modelCall:
  "modelCall (statusEnv 503) (mdl # rest) cs w =
     (Inl (Failure (str ''API error 503: unavailable'')),
      w\<lparr>nfetch := nfetch w + 4, nrandom := nrandom w + 3,
        trace := trace w @
          [EFetch \<lparr>req_model = mdl, req_tools = True, req_contents = cs\<rparr> (Response 503 (str ''unavailable'') (Json None)),
           ESleep 700,
           EFetch \<lparr>req_model = mdl, req_tools = True, req_contents = cs\<rparr> (Response 503 (str ''unavailable'') (Json None)),
           ESleep 1400,
           EFetch \<lparr>req_model = mdl, req_tools = True, req_contents = cs\<rparr> (Response 503 (str ''unavailable'') (Json None)),
           ESleep 2800,
           EFetch \<lparr>req_model = mdl, req_tools = True, req_contents = cs\<rparr> (Response 503 (str ''unavailable'') (Json None))]\<rparr>)"
  by (simp add: status_fetch_transient ok_def digits_503) (simp add: str_def)

lemma busy_run:
  "generateWithToolsLoop (statusEnv 503) initialSTATE emptyPayload (VNum 1) world0 =
     (Failure (str ''API error 503: unavailable''),
      world0\<lparr>nfetch := nfetch world0 + 4, nrandom := nrandom world0 + 3,
        trace := trace world0 @
          [EFetch \<lparr>req_model = str ''gemini-2.5-flash-lite'', req_tools = True, req_contents = []\<rparr> (Response 503 (str ''unavailable'') (Json None)),
           ESleep 700,
           EFetch \<lparr>req_model = str ''gemini-2.5-flash-lite'', req_tools = True, req_contents = []\<rparr> (Response 503 (str ''unavailable'') (Json None)),
           ESleep 1400,
           EFetch \<lparr>req_model = str ''gemini-2.5-flash-lite'', req_tools = True, req_contents = []\<rparr> (Response 503 (str ''unavailable'') (Json None)),
           ESleep 2800,
           EFetch \<lparr>req_model = str ''gemini-2.5-flash-lite'', req_tools = True, req_contents = []\<rparr> (Response 503 (str ''unavailable'') (Json None))]\<rparr>)"
proof -
  have mr: "maxRoundsOf initialSTATE emptyPayload = 8"
    by (simp add: maxRoundsOf_def emptyPayload_def initialSTATE_def)
  have ini: "ls_contents (initialState emptyPayload (VNum 1)) = []"
    by (simp add: initialState_def emptyPayload_def)
  show ?thesis
    unfolding generateWithToolsLoop_def mr fl_init
    by (simp add: roundsLoop.simps[of _ _ _ 8 0] roundBody_def ini compress_empty busy_modelCall
          del: modelCall.simps)
qed

lemma offline_fetch:
  "fetchWithRetry offlineEnv rq 2 700 w =
     (NetworkError,
      w\<lparr>nfetch := nfetch w + 3, nrandom := nrandom w + 3,
        trace := trace w @ [EFetch rq NetworkError, ESleep 700, EFetch rq NetworkError, ESleep 1400,
                            EFetch rq NetworkError, ESleep 2800]\<rparr>)"
  by (simp add: fetchWithRetry_def fetchRetryLoop.simps fetch_def backoff_def emit_def offlineEnv_def
        ok_def Let_def)

lemma plan_fetch_tools:
  "req_tools rq \<Longrightarrow> fetchWithRetry (planEnv fin) rq 2 700 w =
     (Response 200 [] (Json (Some toolPlan)),
      w\<lparr>nfetch := nfetch w + 1, trace := trace w @ [EFetch rq (Response 200 [] (Json (Some toolPlan)))]\<rparr>)"
  by (simp add: fetchWithRetry_def fetchRetryLoop.simps fetch_def emit_def planEnv_def ok_def Let_def)


lemma fl_flash:
  "st_model S = str ''gemini-2.5-flash'' \<Longrightarrow>
   fallbackList S = [str ''gemini-2.5-flash'', str ''gemini-1.5-flash'']"
  by (simp add: fallbackList_def uniq_def preferredModel_def str_def)

lemma fl_auto: "fallbackList autoSTATE = [str ''gemini-2.5-flash'', str ''gemini-1.5-flash'']"
  by (rule fl_flash) (simp add: autoSTATE_def)


lemma fl_three: "fallbackList threeSTATE = [str ''gemini-2.5-flash'', str ''gemini-1.5-flash'']"
  by (rule fl_flash) (simp add: threeSTATE_def)

lemma plan_fetch_down:
  "\<not> req_tools rq \<Longrightarrow> fetchWithRetry (planEnv NetworkError) rq 1 500 w =
     (NetworkError,
      w\<lparr>nfetch := nfetch w + 2, nrandom := nrandom w + 2,
        trace := trace w @ [EFetch rq NetworkError, ESleep 500, EFetch rq NetworkError, ESleep 1000]\<rparr>)"
  by (simp add: fetchWithRetry_def fetchRetryLoop.simps fetch_def backoff_def emit_def planEnv_def
        ok_def Let_def)

lemma plan_fetch_final:
  "\<not> req_tools rq \<Longrightarrow> fetchWithRetry (planEnv (Response 200 [] b)) rq 1 500 w =
     (Response 200 [] b,
      w\<lparr>nfetch := nfetch w + 1, trace := trace w @ [EFetch rq (Response 200 [] b)]\<rparr>)"
  by (simp add: fetchWithRetry_def fetchRetryLoop.simps fetch_def backoff_def emit_def planEnv_def
        ok_def Let_def)

lemma plan_calls: "getFunctionCallsFromCandidate (planEnv fin) (Some toolPlan) = [clickCall]"
  by (simp add: getFunctionCallsFromCandidate_def toolPlan_def normalizeCall_def clickCall_def
        List.map_filter_simps)

lemma click_threshold: "repeatThreshold [clickCall] = 2"
  by (simp add: repeatThreshold_def isLegitimateWorkflow_def workflowTools_def clickCall_def
        str_def)

lemma plan_signature: "json_stringify (planEnv fin) [clickCall] = str ''click''"
  by (simp add: planEnv_def clickCall_def)

lemma plan_modelCall:
  "modelCall (planEnv fin) (mdl # rest) cs w =
     (Inr (Some toolPlan, mdl),
      w\<lparr>nfetch := nfetch w + 1,
        trace := trace w @ [EFetch \<lparr>req_model = mdl, req_tools = True, req_contents = cs\<rparr>
                                (Response 200 [] (Json (Some toolPlan)))]\<rparr>)"
  by (simp add: plan_fetch_tools ok_def)

lemma plan_execute:
  "executeCalls (planEnv fin) rnd [clickCall] tab w =
     ([(str ''click'', VNull)], tab,
      w\<lparr>ntool := ntool w + 1,
        trace := trace w @ [EToolStatus (str ''click''), EExec rnd (str ''click'') (VObj []) tab]\<rparr>)"
  by (simp add: clickCall_def planEnv_def emit_def Let_def orElse_def)

lemma null_fits: "truncateDeepWithin 100 h VNull lm = Some VNull"
  by (simp add: truncateDeepWithin_def numeral_eq_Suc)

lemma plan_response:
  "makeFunctionResponseParts (planEnv fin) [(str ''click'', VNull)] =
     Some [\<lparr>ptext = None, functionCall = None, functionResponse = Some (str ''click'', VNull)\<rparr>]"
proof -
  have s: "stack_room (planEnv fin) = 100" by (simp add: planEnv_def)
  show ?thesis by (simp add: s null_fits)
qed

lemma plan_finishRound_auto:
  "autoApprove S \<Longrightarrow>
   finishRound (planEnv fin) S rnd (Some toolPlan) mdl [clickCall] st w =
     (Inr (st\<lparr>ls_contents := ls_contents st @ [toolPlan, clickDone]\<rparr>),
      w\<lparr>ntool := ntool w + 1,
        trace := trace w @ [EToolStatus (str ''click''),
                            EExec rnd (str ''click'') (VObj []) (currentTabId st)]\<rparr>)"
  by (simp add: finishRound_def requestToolApproval_def plan_execute plan_response
        pushCandidate_def clickDone_def del: executeCalls.simps makeFunctionResponseParts.simps)


lemma plan_decide_fresh:
  "lastCallSignature st \<noteq> Some (str ''click'') \<Longrightarrow>
   decideRound (planEnv fin) S fl rnd (Some toolPlan) mdl cs st w =
     finishRound (planEnv fin) S rnd (Some toolPlan) mdl [clickCall]
       (st\<lparr>ls_contents := cs, repeatCount := 0, lastCallSignature := Some (str ''click'')\<rparr>) w"
  by (simp add: decideRound_def plan_calls plan_signature click_threshold detectRepeat_def Let_def)

lemma plan_decide_again:
  "lastCallSignature st = Some (str ''click'') \<Longrightarrow> repeatCount st = 0 \<Longrightarrow>
   decideRound (planEnv fin) S fl rnd (Some toolPlan) mdl cs st w =
     finishRound (planEnv fin) S rnd (Some toolPlan) mdl [clickCall]
       (st\<lparr>ls_contents := cs, repeatCount := 1\<rparr>) w"
  by (simp add: decideRound_def plan_calls plan_signature click_threshold detectRepeat_def Let_def)

lemma plan_final_down:
  "finalAnswerWithoutTools (planEnv NetworkError) [m1, m2] cs w =
     (None,
      w\<lparr>nfetch := nfetch w + 4, nrandom := nrandom w + 4,
        trace := trace w @
          [EFetch \<lparr>req_model = m1, req_tools = False, req_contents = cs\<rparr> NetworkError, ESleep 500,
           EFetch \<lparr>req_model = m1, req_tools = False, req_contents = cs\<rparr> NetworkError, ESleep 1000,
           EFetch \<lparr>req_model = m2, req_tools = False, req_contents = cs\<rparr> NetworkError, ESleep 500,
           EFetch \<lparr>req_model = m2, req_tools = False, req_contents = cs\<rparr> NetworkError, ESleep 1000]\<rparr>)"
  by (simp add: plan_fetch_down[unfolded One_nat_def])

lemma plan_final_answer:
  "finalAnswerWithoutTools (planEnv (Response 200 [] (Json js))) (m1 # rest) cs w =
     (Some (js, m1),
      w\<lparr>nfetch := nfetch w + 1,
        trace := trace w @
          [EFetch \<lparr>req_model = m1, req_tools = False, req_contents = cs\<rparr>
             (Response 200 [] (Json js))]\<rparr>)"
  by (simp add: plan_fetch_final[unfolded One_nat_def] ok_def)


lemma done_text: "extractTextFromCandidate (Some plainAnswer) = str ''done''"
  by (simp add: extractTextFromCandidate_def plainAnswer_def textPart_def List.map_filter_simps)

lemma plan_decide_forced:
  "lastCallSignature st = Some (str ''click'') \<Longrightarrow> 1 \<le> repeatCount st \<Longrightarrow>
   decideRound (planEnv (Response 200 [] (Json (Some plainAnswer)))) S (m1 # rest) rnd
       (Some toolPlan) mdl cs st w =
     (Inl (Answer (str ''done'') m1),
      w\<lparr>nfetch := nfetch w + 1,
        trace := trace w @
          [EStream repeatMessage,
           EFetch \<lparr>req_model = m1, req_tools = False, req_contents = cs @ [toolPlan, stopInstruction]\<rparr>
             (Response 200 [] (Json (Some plainAnswer)))]\<rparr>)"
  by (simp add: decideRound_def plan_calls plan_signature click_threshold detectRepeat_def Let_def
        stream_def emit_def plan_final_answer pushCandidate_def done_text
        del: finalAnswerWithoutTools.simps)

lemma compress_small:
  "int (estimateContentChars cs) \<le> maxc \<Longrightarrow> compressIfNeeded e S cs maxc w = (cs, w)"
  by (simp add: compressIfNeeded_def)

lemma click_chars:
  "estimateContentChars (toolPlan # clickDone # cs) = estimateContentChars cs"
  by (simp add: estimateContentChars_def toolPlan_def clickDone_def partChars_def)

lemma init_empty:
  "initialState emptyPayload t
     = \<lparr>ls_contents = [], currentTabId = t, lastCallSignature = None, repeatCount = 0\<rparr>"
  by (simp add: initialState_def emptyPayload_def)


text \<open>The first round against the model that asks for \<open>click\<close>.\<close>

lemma plan_round0:
  "autoApprove S \<Longrightarrow>
   roundBody (planEnv fin) S (mdl # rest) 0
       \<lparr>ls_contents = [], currentTabId = VNum 1, lastCallSignature = None, repeatCount = 0\<rparr> world0 =
     (Inr \<lparr>ls_contents = [toolPlan, clickDone], currentTabId = VNum 1,
            lastCallSignature = Some (str ''click''), repeatCount = 0\<rparr>,
      \<lparr>nfetch = 1, nrandom = 0, napproval = 0, ntool = 1,
        trace = [EFetch \<lparr>req_model = mdl, req_tools = True, req_contents = []\<rparr>
                   (Response 200 [] (Json (Some toolPlan))),
                 EToolStatus (str ''click''), EExec 0 (str ''click'') (VObj []) (VNum 1)]\<rparr>)"
  by (simp add: roundBody_def compress_empty plan_modelCall plan_decide_fresh plan_finishRound_auto
        world0_def del: modelCall.simps)

lemma plan_rounds_one:
  "autoApprove S \<Longrightarrow>
   roundsLoop (planEnv fin) S (mdl # rest) 1 0
       \<lparr>ls_contents = [], currentTabId = VNum 1, lastCallSignature = None, repeatCount = 0\<rparr> world0 =
     (Inr \<lparr>ls_contents = [toolPlan, clickDone], currentTabId = VNum 1,
            lastCallSignature = Some (str ''click''), repeatCount = 0\<rparr>,
      \<lparr>nfetch = 1, nrandom = 0, napproval = 0, ntool = 1,
        trace = [EFetch \<lparr>req_model = mdl, req_tools = True, req_contents = []\<rparr>
                   (Response 200 [] (Json (Some toolPlan))),
                 EToolStatus (str ''click''), EExec 0 (str ''click'') (VObj []) (VNum 1)]\<rparr>)"
  by (simp add: roundsLoop.simps[of _ _ _ 1 0] roundsLoop.simps[of _ _ _ 1 1] plan_round0)

lemma max_auto: "maxRoundsOf autoSTATE emptyPayload = 1"
  by (simp add: maxRoundsOf_def emptyPayload_def autoSTATE_def)



lemma max_three: "maxRoundsOf threeSTATE emptyPayload = 3"
  by (simp add: maxRoundsOf_def emptyPayload_def threeSTATE_def)

lemma auto_auto: "autoApprove autoSTATE"
  by (simp add: autoSTATE_def)

lemma auto_three: "autoApprove threeSTATE"
  by (simp add: threeSTATE_def)

lemma plan_run_auto:
  "generateWithToolsLoop (planEnv NetworkError) autoSTATE emptyPayload (VNum 1) world0 =
     (Failure maxRoundsMessage,
      \<lparr>nfetch = 5, nrandom = 4, napproval = 0, ntool = 1,
        trace = [EFetch \<lparr>req_model = str ''gemini-2.5-flash'', req_tools = True, req_contents = []\<rparr>
                   (Response 200 [] (Json (Some toolPlan))),
                 EToolStatus (str ''click''), EExec 0 (str ''click'') (VObj []) (VNum 1),
                 EStream exhaustedMessage,
          EFetch \<lparr>req_model = str ''gemini-2.5-flash'', req_tools = False, req_contents = [toolPlan, clickDone]\<rparr> NetworkError, ESleep 500,
          EFetch \<lparr>req_model = str ''gemini-2.5-flash'', req_tools = False, req_contents = [toolPlan, clickDone]\<rparr> NetworkError, ESleep 1000,
          EFetch \<lparr>req_model = str ''gemini-1.5-flash'', req_tools = False, req_contents = [toolPlan, clickDone]\<rparr> NetworkError, ESleep 500,
          EFetch \<lparr>req_model = str ''gemini-1.5-flash'', req_tools = False, req_contents = [toolPlan, clickDone]\<rparr> NetworkError, ESleep 1000]\<rparr>)"
  unfolding generateWithToolsLoop_def max_auto fl_auto init_empty plan_rounds_one[OF auto_auto]
  by (simp add: afterRounds_def stream_def emit_def plan_final_down del: finalAnswerWithoutTools.simps)






text \<open>The second and third round against the model that asks for \<open>click\<close>.\<close>

lemma plan_round_again:
  "autoApprove S \<Longrightarrow> estimateContentChars cs = 0 \<Longrightarrow>
   roundBody (planEnv fin) S (mdl # rest) rnd
       \<lparr>ls_contents = cs, currentTabId = tab, lastCallSignature = Some (str ''click''),
         repeatCount = 0\<rparr> w =
     (Inr \<lparr>ls_contents = cs @ [toolPlan, clickDone], currentTabId = tab,
            lastCallSignature = Some (str ''click''), repeatCount = 1\<rparr>,
      w\<lparr>nfetch := nfetch w + 1, ntool := ntool w + 1,
        trace := trace w @ [EFetch \<lparr>req_model = mdl, req_tools = True, req_contents = cs\<rparr>
                              (Response 200 [] (Json (Some toolPlan))),
                            EToolStatus (str ''click''), EExec rnd (str ''click'') (VObj []) tab]\<rparr>)"
  by (simp add: roundBody_def compress_small plan_modelCall plan_decide_again plan_finishRound_auto
        del: modelCall.simps)

lemma plan_round_forced:
  "estimateContentChars cs = 0 \<Longrightarrow>
   roundBody (planEnv (Response 200 [] (Json (Some plainAnswer)))) S (mdl # rest) rnd
       \<lparr>ls_contents = cs, currentTabId = tab, lastCallSignature = Some (str ''click''),
         repeatCount = 1\<rparr> w =
     (Inl (Answer (str ''done'') mdl),
      w\<lparr>nfetch := nfetch w + 2,
        trace := trace w @ [EFetch \<lparr>req_model = mdl, req_tools = True, req_contents = cs\<rparr>
                              (Response 200 [] (Json (Some toolPlan))),
                            EStream repeatMessage,
                            EFetch \<lparr>req_model = mdl, req_tools = False,
                                     req_contents = cs @ [toolPlan, stopInstruction]\<rparr>
                              (Response 200 [] (Json (Some plainAnswer)))]\<rparr>)"
  by (simp add: roundBody_def compress_small plan_modelCall plan_decide_forced
        del: modelCall.simps)

lemma chars2: "estimateContentChars [toolPlan, clickDone] = 0"
  by (simp add: click_chars estimate_Nil)

lemma chars4: "estimateContentChars [toolPlan, clickDone, toolPlan, clickDone] = 0"
  by (simp add: click_chars estimate_Nil)

lemma stop_text:
  "stopInstruction =
     \<lparr>role = str ''user'',
      parts = [\<lparr>ptext = Some (str ''Stop calling tools. Provide the final answer concisely based on the gathered data.''),
                functionCall = None, functionResponse = None\<rparr>]\<rparr>"
  by (simp add: stopInstruction_def userContent_def textPart_def)


section \<open>The claims about the loop\<close>





text \<open>
  C2. Take two consecutive rounds \<open>rnd\<close> and \<open>rnd + 1\<close> of the loop in both of which
  the model has answered, the first of them ending without a \<open>return\<close>; \<open>calls0\<close>
  and \<open>calls\<close> are the calls requested in the two rounds. The loop runs the second
  round on the state and the world the first has left, and goes on with round
  \<open>rnd + 2\<close> on what the second leaves. The state the first round hands on holds the
  signature of \<open>calls0\<close> and the counter that round has computed. In the second round
  the counter \<open>c\<close> is that counter plus one when \<open>calls\<close> is not empty and has the
  signature of \<open>calls0\<close>, and 0 otherwise; the state handed on to the next round holds
  \<open>c\<close> and the signature of \<open>calls\<close>. The threshold \<open>t\<close> is 4 when some
  requested call is one of the five workflow tools, and 2 otherwise. Below the
  threshold the round makes no further model call: after the model has answered it adds
  only approval and tool events. At or above the threshold the round streams the notice
  and makes one call without tool declarations, every request of which carries the
  contents, the candidate and the instruction to stop calling tools and give the final
  answer; when that call has an answer, the round returns it and adds nothing more.
\<close>

theorem repeated_plan_forces_final_answer:
  assumes "rnd + 1 < maxRounds"
    and "compressIfNeeded e S (ls_contents st) 10000 w = (cs0, wa)"
    and "modelCall e fl cs0 wa = (Inr (candidate0, model0), wb)"
    and "roundBody e S fl rnd st w = (Inr st1, w1)"
    and "compressIfNeeded e S (ls_contents st1) 10000 w1 = (cs, w2)"
    and "modelCall e fl cs w2 = (Inr (candidate, usedModel), w3)"
    and "roundBody e S fl (rnd + 1) st1 w1 = (res, w')"
    and "calls0 = getFunctionCallsFromCandidate e candidate0"
    and "calls = getFunctionCallsFromCandidate e candidate"
    and "c = (if calls \<noteq> [] \<and> json_stringify e calls = json_stringify e calls0
              then repeatCount st1 + 1 else 0)"
    and "t = (if \<exists>x \<in> set calls. call_name x \<in> {str ''searchWeb'', str ''getSearchResults'',
                 str ''clickSearchResultByDomain'', str ''extractText'', str ''waitForSelector''}
              then 4 else 2)"
  shows "roundsLoop e S fl maxRounds rnd st w =
           (case res of Inl r \<Rightarrow> (Inl r, w')
            | Inr st2 \<Rightarrow> roundsLoop e S fl maxRounds (rnd + 2) st2 w') \<and>
         lastCallSignature st1 = Some (json_stringify e calls0) \<and>
         repeatCount st1 =
           (if calls0 \<noteq> [] \<and> lastCallSignature st = Some (json_stringify e calls0)
            then repeatCount st + 1 else 0) \<and>
         repeatThreshold calls = t \<and>
         (\<forall>st2. res = Inr st2 \<longrightarrow>
            lastCallSignature st2 = Some (json_stringify e calls) \<and> repeatCount st2 = c) \<and>
         (c < t \<longrightarrow> kindOf ` set (newEvents w3 w') \<subseteq> {KApproval, KTool}) \<and>
         (t \<le> c \<longrightarrow>
            (\<exists>fr evs rest.
               newEvents w3 w' =
                 EStream (str ''Detected repeated tool plan; forcing a final answer without tools...'')
                   # evs @ rest \<and>
               kindOf ` set evs \<subseteq> {KFetch, KSleep} \<and>
               kindOf ` set rest \<subseteq> {KApproval, KTool} \<and>
               noToolsRun fl
                 (pushCandidate cs candidate @
                  [\<lparr>role = str ''user'',
                    parts = [\<lparr>ptext = Some (str ''Stop calling tools. Provide the final answer concisely based on the gathered data.''),
                              functionCall = None, functionResponse = None\<rparr>]\<rparr>])
                 fr evs \<and>
               (fl \<noteq> [] \<longrightarrow> fetches evs \<noteq> []) \<and>
               (\<forall>js m. fr = Some (js, m) \<longrightarrow>
                  res = Inl (Answer (extractTextFromCandidate js) m) \<and> rest = [])))"
proof -
  define sg0 where "sg0 = json_stringify e calls0"
  define sg where "sg = json_stringify e calls"
  define s0 where "s0 = detectRepeat sg0 calls0 (st\<lparr>ls_contents := cs0\<rparr>)"
  define s1 where "s1 = detectRepeat sg calls (st1\<lparr>ls_contents := cs\<rparr>)"
  note d0 = decideRound_repeat[OF roundBody_decide[OF assms(4,2,3)] assms(8) sg0_def s0_def]
  note d1 = decideRound_repeat[OF roundBody_decide[OF assms(7,5,6)] assms(9) sg_def s1_def]
  have A: "roundsLoop e S fl maxRounds rnd st w =
           (case res of Inl r \<Rightarrow> (Inl r, w')
            | Inr st2 \<Rightarrow> roundsLoop e S fl maxRounds (rnd + 2) st2 w')"
    using assms(1,4,7) by (rule roundsLoop_two)
  have k0: "lastCallSignature st1 = Some sg0 \<and> repeatCount st1 = repeatCount s0"
    using d0 by blast
  have B: "lastCallSignature st1 = Some (json_stringify e calls0)" using k0 by (simp add: sg0_def)
  have C: "repeatCount st1 =
           (if calls0 \<noteq> [] \<and> lastCallSignature st = Some (json_stringify e calls0)
            then repeatCount st + 1 else 0)"
  proof (cases "calls0 \<noteq> [] \<and> Some sg0 = lastCallSignature st")
    case True
    then have "lastCallSignature st = Some sg0" by simp
    then show ?thesis using k0 True by (simp add: s0_def detectRepeat_def sg0_def)
  next
    case False
    then have "\<not> (calls0 \<noteq> [] \<and> lastCallSignature st = Some sg0)" by auto
    then show ?thesis using k0 False by (simp add: s0_def detectRepeat_def sg0_def)
  qed
  have D: "repeatThreshold calls = t" using d1 assms(11) by simp
  have c1: "repeatCount s1 = c"
  proof (cases "calls \<noteq> [] \<and> sg = sg0")
    case True
    then show ?thesis unfolding s1_def assms(10) using k0 by (simp add: detectRepeat_def sg_def sg0_def)
  next
    case False
    then have "\<not> (calls \<noteq> [] \<and> Some sg = lastCallSignature st1)" using k0 by auto
    then show ?thesis unfolding s1_def assms(10) using False
      by (simp add: detectRepeat_def sg_def sg0_def)
  qed
  have E: "\<forall>st2. res = Inr st2 \<longrightarrow>
            lastCallSignature st2 = Some (json_stringify e calls) \<and> repeatCount st2 = c"
    using d1 c1 by (simp add: sg_def)
  have F: "c < t \<longrightarrow> kindOf ` set (newEvents w3 w') \<subseteq> {KApproval, KTool}"
    using d1 c1 D by simp
  have si: "stopInstruction =
      \<lparr>role = str ''user'',
       parts = [\<lparr>ptext = Some (str ''Stop calling tools. Provide the final answer concisely based on the gathered data.''),
                 functionCall = None, functionResponse = None\<rparr>]\<rparr>"
    by (simp add: stopInstruction_def userContent_def textPart_def)
  have G: "t \<le> c \<longrightarrow>
            (\<exists>fr evs rest.
               newEvents w3 w' =
                 EStream (str ''Detected repeated tool plan; forcing a final answer without tools...'')
                   # evs @ rest \<and>
               kindOf ` set evs \<subseteq> {KFetch, KSleep} \<and>
               kindOf ` set rest \<subseteq> {KApproval, KTool} \<and>
               noToolsRun fl
                 (pushCandidate cs candidate @
                  [\<lparr>role = str ''user'',
                    parts = [\<lparr>ptext = Some (str ''Stop calling tools. Provide the final answer concisely based on the gathered data.''),
                              functionCall = None, functionResponse = None\<rparr>]\<rparr>])
                 fr evs \<and>
               (fl \<noteq> [] \<longrightarrow> fetches evs \<noteq> []) \<and>
               (\<forall>js m. fr = Some (js, m) \<longrightarrow>
                  res = Inl (Answer (extractTextFromCandidate js) m) \<and> rest = []))"
  proof -
    have g: "repeatThreshold calls \<le> repeatCount s1 \<longrightarrow>
            (\<exists>fr evs rest.
               newEvents w3 w' = EStream repeatMessage # evs @ rest \<and>
               kindOf ` set evs \<subseteq> {KFetch, KSleep} \<and>
               kindOf ` set rest \<subseteq> {KApproval, KTool} \<and>
               noToolsRun fl (pushCandidate cs candidate @ [stopInstruction]) fr evs \<and>
               (fl \<noteq> [] \<longrightarrow> fetches evs \<noteq> []) \<and>
               (\<forall>js m. fr = Some (js, m) \<longrightarrow>
                  res = Inl (Answer (extractTextFromCandidate js) m) \<and> rest = []))"
      using d1 by (elim conjE)
    show ?thesis using g unfolding c1 D si repeatMessage_def .
  qed
  show ?thesis using A B C D E F G by blast
qed

text \<open>
  C2 at a run of three rounds in which the model asks for \<open>click\<close> every time, from
  the initial state. Round 0 stores the signature with counter 0 and executes the tool;
  round 1 meets the same signature, counts 1, which is below the threshold 2, and
  executes the tool; round 2 counts 2, streams the notice and makes the call without
  tool declarations, whose request carries the five gathered entries and the instruction,
  and the run returns its answer. The threshold for \<open>extractText\<close> is 4.
\<close>

theorem repeated_plan_forces_final_answer_witness:
  "roundBody (planEnv (Response 200 [] (Json (Some plainAnswer)))) threeSTATE
      [str ''gemini-2.5-flash'', str ''gemini-1.5-flash''] 0 (initialState emptyPayload (VNum 1)) world0 =
     (Inr \<lparr>ls_contents = [toolPlan, clickDone], currentTabId = VNum 1,
        lastCallSignature = Some (str ''click''), repeatCount = 0\<rparr>,
      \<lparr>nfetch = 1, nrandom = 0, napproval = 0, ntool = 1,
        trace = [EFetch \<lparr>req_model = str ''gemini-2.5-flash'', req_tools = True, req_contents = []\<rparr>
            (Response 200 [] (Json (Some toolPlan))),
          EToolStatus (str ''click''), EExec 0 (str ''click'') (VObj []) (VNum 1)]\<rparr>) \<and>
   roundBody (planEnv (Response 200 [] (Json (Some plainAnswer)))) threeSTATE
      [str ''gemini-2.5-flash'', str ''gemini-1.5-flash''] 1
      \<lparr>ls_contents = [toolPlan, clickDone], currentTabId = VNum 1,
        lastCallSignature = Some (str ''click''), repeatCount = 0\<rparr>
      \<lparr>nfetch = 1, nrandom = 0, napproval = 0, ntool = 1,
        trace = [EFetch \<lparr>req_model = str ''gemini-2.5-flash'', req_tools = True, req_contents = []\<rparr>
            (Response 200 [] (Json (Some toolPlan))),
          EToolStatus (str ''click''), EExec 0 (str ''click'') (VObj []) (VNum 1)]\<rparr> =
     (Inr \<lparr>ls_contents = [toolPlan, clickDone, toolPlan, clickDone], currentTabId = VNum 1,
        lastCallSignature = Some (str ''click''), repeatCount = 1\<rparr>,
      \<lparr>nfetch = 2, nrandom = 0, napproval = 0, ntool = 2,
        trace = [EFetch \<lparr>req_model = str ''gemini-2.5-flash'', req_tools = True, req_contents = []\<rparr>
            (Response 200 [] (Json (Some toolPlan))),
          EToolStatus (str ''click''), EExec 0 (str ''click'') (VObj []) (VNum 1),
          EFetch \<lparr>req_model = str ''gemini-2.5-flash'', req_tools = True, req_contents = [toolPlan, clickDone]\<rparr>
            (Response 200 [] (Json (Some toolPlan))),
          EToolStatus (str ''click''), EExec 1 (str ''click'') (VObj []) (VNum 1)]\<rparr>) \<and>
   roundBody (planEnv (Response 200 [] (Json (Some plainAnswer)))) threeSTATE
      [str ''gemini-2.5-flash'', str ''gemini-1.5-flash''] 2
      \<lparr>ls_contents = [toolPlan, clickDone, toolPlan, clickDone], currentTabId = VNum 1,
        lastCallSignature = Some (str ''click''), repeatCount = 1\<rparr>
      \<lparr>nfetch = 2, nrandom = 0, napproval = 0, ntool = 2,
        trace = [EFetch \<lparr>req_model = str ''gemini-2.5-flash'', req_tools = True, req_contents = []\<rparr>
            (Response 200 [] (Json (Some toolPlan))),
          EToolStatus (str ''click''), EExec 0 (str ''click'') (VObj []) (VNum 1),
          EFetch \<lparr>req_model = str ''gemini-2.5-flash'', req_tools = True, req_contents = [toolPlan, clickDone]\<rparr>
            (Response 200 [] (Json (Some toolPlan))),
          EToolStatus (str ''click''), EExec 1 (str ''click'') (VObj []) (VNum 1)]\<rparr> =
     (Inl (Answer (str ''done'') (str ''gemini-2.5-flash'')),
      \<lparr>nfetch = 4, nrandom = 0, napproval = 0, ntool = 2,
        trace = [EFetch \<lparr>req_model = str ''gemini-2.5-flash'', req_tools = True, req_contents = []\<rparr>
            (Response 200 [] (Json (Some toolPlan))),
          EToolStatus (str ''click''), EExec 0 (str ''click'') (VObj []) (VNum 1),
          EFetch \<lparr>req_model = str ''gemini-2.5-flash'', req_tools = True, req_contents = [toolPlan, clickDone]\<rparr>
            (Response 200 [] (Json (Some toolPlan))),
          EToolStatus (str ''click''), EExec 1 (str ''click'') (VObj []) (VNum 1),
          EFetch \<lparr>req_model = str ''gemini-2.5-flash'', req_tools = True, req_contents = [toolPlan, clickDone, toolPlan, clickDone]\<rparr>
            (Response 200 [] (Json (Some toolPlan))),
          EStream (str ''Detected repeated tool plan; forcing a final answer without tools...''),
          EFetch \<lparr>req_model = str ''gemini-2.5-flash'', req_tools = False,
              req_contents = [toolPlan, clickDone, toolPlan, clickDone, toolPlan,
               \<lparr>role = str ''user'',
                parts = [\<lparr>ptext = Some (str ''Stop calling tools. Provide the final answer concisely based on the gathered data.''),
                          functionCall = None, functionResponse = None\<rparr>]\<rparr>]\<rparr>
            (Response 200 [] (Json (Some plainAnswer)))]\<rparr>) \<and>
   roundsLoop (planEnv (Response 200 [] (Json (Some plainAnswer)))) threeSTATE
      [str ''gemini-2.5-flash'', str ''gemini-1.5-flash''] 3 1
      \<lparr>ls_contents = [toolPlan, clickDone], currentTabId = VNum 1,
        lastCallSignature = Some (str ''click''), repeatCount = 0\<rparr>
      \<lparr>nfetch = 1, nrandom = 0, napproval = 0, ntool = 1,
        trace = [EFetch \<lparr>req_model = str ''gemini-2.5-flash'', req_tools = True, req_contents = []\<rparr>
            (Response 200 [] (Json (Some toolPlan))),
          EToolStatus (str ''click''), EExec 0 (str ''click'') (VObj []) (VNum 1)]\<rparr> =
     (Inl (Answer (str ''done'') (str ''gemini-2.5-flash'')),
      \<lparr>nfetch = 4, nrandom = 0, napproval = 0, ntool = 2,
        trace = [EFetch \<lparr>req_model = str ''gemini-2.5-flash'', req_tools = True, req_contents = []\<rparr>
            (Response 200 [] (Json (Some toolPlan))),
          EToolStatus (str ''click''), EExec 0 (str ''click'') (VObj []) (VNum 1),
          EFetch \<lparr>req_model = str ''gemini-2.5-flash'', req_tools = True, req_contents = [toolPlan, clickDone]\<rparr>
            (Response 200 [] (Json (Some toolPlan))),
          EToolStatus (str ''click''), EExec 1 (str ''click'') (VObj []) (VNum 1),
          EFetch \<lparr>req_model = str ''gemini-2.5-flash'', req_tools = True, req_contents = [toolPlan, clickDone, toolPlan, clickDone]\<rparr>
            (Response 200 [] (Json (Some toolPlan))),
          EStream (str ''Detected repeated tool plan; forcing a final answer without tools...''),
          EFetch \<lparr>req_model = str ''gemini-2.5-flash'', req_tools = False,
              req_contents = [toolPlan, clickDone, toolPlan, clickDone, toolPlan,
               \<lparr>role = str ''user'',
                parts = [\<lparr>ptext = Some (str ''Stop calling tools. Provide the final answer concisely based on the gathered data.''),
                          functionCall = None, functionResponse = None\<rparr>]\<rparr>]\<rparr>
            (Response 200 [] (Json (Some plainAnswer)))]\<rparr>) \<and>
   generateWithToolsLoop (planEnv (Response 200 [] (Json (Some plainAnswer)))) threeSTATE emptyPayload (VNum 1) world0 =
     (Answer (str ''done'') (str ''gemini-2.5-flash''),
      \<lparr>nfetch = 4, nrandom = 0, napproval = 0, ntool = 2,
        trace = [EFetch \<lparr>req_model = str ''gemini-2.5-flash'', req_tools = True, req_contents = []\<rparr>
            (Response 200 [] (Json (Some toolPlan))),
          EToolStatus (str ''click''), EExec 0 (str ''click'') (VObj []) (VNum 1),
          EFetch \<lparr>req_model = str ''gemini-2.5-flash'', req_tools = True, req_contents = [toolPlan, clickDone]\<rparr>
            (Response 200 [] (Json (Some toolPlan))),
          EToolStatus (str ''click''), EExec 1 (str ''click'') (VObj []) (VNum 1),
          EFetch \<lparr>req_model = str ''gemini-2.5-flash'', req_tools = True, req_contents = [toolPlan, clickDone, toolPlan, clickDone]\<rparr>
            (Response 200 [] (Json (Some toolPlan))),
          EStream (str ''Detected repeated tool plan; forcing a final answer without tools...''),
          EFetch \<lparr>req_model = str ''gemini-2.5-flash'', req_tools = False,
              req_contents = [toolPlan, clickDone, toolPlan, clickDone, toolPlan,
               \<lparr>role = str ''user'',
                parts = [\<lparr>ptext = Some (str ''Stop calling tools. Provide the final answer concisely based on the gathered data.''),
                          functionCall = None, functionResponse = None\<rparr>]\<rparr>]\<rparr>
            (Response 200 [] (Json (Some plainAnswer)))]\<rparr>) \<and>
   json_stringify (planEnv (Response 200 [] (Json (Some plainAnswer)))) [clickCall] = str ''click'' \<and>
   repeatThreshold [clickCall] = 2 \<and>
   repeatThreshold [\<lparr>call_name = str ''extractText'', call_args = VObj []\<rparr>] = 4 \<and>
   kindOf ` set (newEvents
      \<lparr>nfetch = 2, nrandom = 0, napproval = 0, ntool = 1,
        trace = [EFetch \<lparr>req_model = str ''gemini-2.5-flash'', req_tools = True, req_contents = []\<rparr>
            (Response 200 [] (Json (Some toolPlan))),
          EToolStatus (str ''click''), EExec 0 (str ''click'') (VObj []) (VNum 1),
          EFetch \<lparr>req_model = str ''gemini-2.5-flash'', req_tools = True, req_contents = [toolPlan, clickDone]\<rparr>
            (Response 200 [] (Json (Some toolPlan)))]\<rparr>
      \<lparr>nfetch = 2, nrandom = 0, napproval = 0, ntool = 2,
        trace = [EFetch \<lparr>req_model = str ''gemini-2.5-flash'', req_tools = True, req_contents = []\<rparr>
            (Response 200 [] (Json (Some toolPlan))),
          EToolStatus (str ''click''), EExec 0 (str ''click'') (VObj []) (VNum 1),
          EFetch \<lparr>req_model = str ''gemini-2.5-flash'', req_tools = True, req_contents = [toolPlan, clickDone]\<rparr>
            (Response 200 [] (Json (Some toolPlan))),
          EToolStatus (str ''click''), EExec 1 (str ''click'') (VObj []) (VNum 1)]\<rparr>) \<subseteq> {KApproval, KTool} \<and>
   newEvents
      \<lparr>nfetch = 3, nrandom = 0, napproval = 0, ntool = 2,
        trace = [EFetch \<lparr>req_model = str ''gemini-2.5-flash'', req_tools = True, req_contents = []\<rparr>
            (Response 200 [] (Json (Some toolPlan))),
          EToolStatus (str ''click''), EExec 0 (str ''click'') (VObj []) (VNum 1),
          EFetch \<lparr>req_model = str ''gemini-2.5-flash'', req_tools = True, req_contents = [toolPlan, clickDone]\<rparr>
            (Response 200 [] (Json (Some toolPlan))),
          EToolStatus (str ''click''), EExec 1 (str ''click'') (VObj []) (VNum 1),
          EFetch \<lparr>req_model = str ''gemini-2.5-flash'', req_tools = True, req_contents = [toolPlan, clickDone, toolPlan, clickDone]\<rparr>
            (Response 200 [] (Json (Some toolPlan)))]\<rparr>
      \<lparr>nfetch = 4, nrandom = 0, napproval = 0, ntool = 2,
        trace = [EFetch \<lparr>req_model = str ''gemini-2.5-flash'', req_tools = True, req_contents = []\<rparr>
            (Response 200 [] (Json (Some toolPlan))),
          EToolStatus (str ''click''), EExec 0 (str ''click'') (VObj []) (VNum 1),
          EFetch \<lparr>req_model = str ''gemini-2.5-flash'', req_tools = True, req_contents = [toolPlan, clickDone]\<rparr>
            (Response 200 [] (Json (Some toolPlan))),
          EToolStatus (str ''click''), EExec 1 (str ''click'') (VObj []) (VNum 1),
          EFetch \<lparr>req_model = str ''gemini-2.5-flash'', req_tools = True, req_contents = [toolPlan, clickDone, toolPlan, clickDone]\<rparr>
            (Response 200 [] (Json (Some toolPlan))),
          EStream (str ''Detected repeated tool plan; forcing a final answer without tools...''),
          EFetch \<lparr>req_model = str ''gemini-2.5-flash'', req_tools = False,
              req_contents = [toolPlan, clickDone, toolPlan, clickDone, toolPlan,
               \<lparr>role = str ''user'',
                parts = [\<lparr>ptext = Some (str ''Stop calling tools. Provide the final answer concisely based on the gathered data.''),
                          functionCall = None, functionResponse = None\<rparr>]\<rparr>]\<rparr>
            (Response 200 [] (Json (Some plainAnswer)))]\<rparr>
     = [EStream (str ''Detected repeated tool plan; forcing a final answer without tools...''),
        EFetch \<lparr>req_model = str ''gemini-2.5-flash'', req_tools = False,
              req_contents = [toolPlan, clickDone, toolPlan, clickDone, toolPlan,
               \<lparr>role = str ''user'',
                parts = [\<lparr>ptext = Some (str ''Stop calling tools. Provide the final answer concisely based on the gathered data.''),
                          functionCall = None, functionResponse = None\<rparr>]\<rparr>]\<rparr>
            (Response 200 [] (Json (Some plainAnswer)))] \<and>
   noToolsRun [str ''gemini-2.5-flash'', str ''gemini-1.5-flash'']
      [toolPlan, clickDone, toolPlan, clickDone, toolPlan,
               \<lparr>role = str ''user'',
                parts = [\<lparr>ptext = Some (str ''Stop calling tools. Provide the final answer concisely based on the gathered data.''),
                          functionCall = None, functionResponse = None\<rparr>]\<rparr>]
      (Some (Some plainAnswer, str ''gemini-2.5-flash''))
      [EFetch \<lparr>req_model = str ''gemini-2.5-flash'', req_tools = False,
              req_contents = [toolPlan, clickDone, toolPlan, clickDone, toolPlan,
               \<lparr>role = str ''user'',
                parts = [\<lparr>ptext = Some (str ''Stop calling tools. Provide the final answer concisely based on the gathered data.''),
                          functionCall = None, functionResponse = None\<rparr>]\<rparr>]\<rparr>
            (Response 200 [] (Json (Some plainAnswer)))]"
proof -
  define E where "E = planEnv (Response 200 [] (Json (Some plainAnswer)))"
  define FL where "FL = [str ''gemini-2.5-flash'', str ''gemini-1.5-flash'']"
  define S0 where "S0 = \<lparr>ls_contents = [], currentTabId = VNum 1,
        lastCallSignature = None, repeatCount = 0\<rparr>"
  define S1 where "S1 = \<lparr>ls_contents = [toolPlan, clickDone], currentTabId = VNum 1,
        lastCallSignature = Some (str ''click''), repeatCount = 0\<rparr>"
  define S2 where "S2 = \<lparr>ls_contents = [toolPlan, clickDone, toolPlan, clickDone], currentTabId = VNum 1,
        lastCallSignature = Some (str ''click''), repeatCount = 1\<rparr>"
  define W0b where "W0b = \<lparr>nfetch = 1, nrandom = 0, napproval = 0, ntool = 0,
        trace = [EFetch \<lparr>req_model = str ''gemini-2.5-flash'', req_tools = True, req_contents = []\<rparr>
            (Response 200 [] (Json (Some toolPlan)))]\<rparr>"
  define W1 where "W1 = \<lparr>nfetch = 1, nrandom = 0, napproval = 0, ntool = 1,
        trace = [EFetch \<lparr>req_model = str ''gemini-2.5-flash'', req_tools = True, req_contents = []\<rparr>
            (Response 200 [] (Json (Some toolPlan))),
          EToolStatus (str ''click''), EExec 0 (str ''click'') (VObj []) (VNum 1)]\<rparr>"
  define W1b where "W1b = \<lparr>nfetch = 2, nrandom = 0, napproval = 0, ntool = 1,
        trace = [EFetch \<lparr>req_model = str ''gemini-2.5-flash'', req_tools = True, req_contents = []\<rparr>
            (Response 200 [] (Json (Some toolPlan))),
          EToolStatus (str ''click''), EExec 0 (str ''click'') (VObj []) (VNum 1),
          EFetch \<lparr>req_model = str ''gemini-2.5-flash'', req_tools = True, req_contents = [toolPlan, clickDone]\<rparr>
            (Response 200 [] (Json (Some toolPlan)))]\<rparr>"
  define W2 where "W2 = \<lparr>nfetch = 2, nrandom = 0, napproval = 0, ntool = 2,
        trace = [EFetch \<lparr>req_model = str ''gemini-2.5-flash'', req_tools = True, req_contents = []\<rparr>
            (Response 200 [] (Json (Some toolPlan))),
          EToolStatus (str ''click''), EExec 0 (str ''click'') (VObj []) (VNum 1),
          EFetch \<lparr>req_model = str ''gemini-2.5-flash'', req_tools = True, req_contents = [toolPlan, clickDone]\<rparr>
            (Response 200 [] (Json (Some toolPlan))),
          EToolStatus (str ''click''), EExec 1 (str ''click'') (VObj []) (VNum 1)]\<rparr>"
  define W2b where "W2b = \<lparr>nfetch = 3, nrandom = 0, napproval = 0, ntool = 2,
        trace = [EFetch \<lparr>req_model = str ''gemini-2.5-flash'', req_tools = True, req_contents = []\<rparr>
            (Response 200 [] (Json (Some toolPlan))),
          EToolStatus (str ''click''), EExec 0 (str ''click'') (VObj []) (VNum 1),
          EFetch \<lparr>req_model = str ''gemini-2.5-flash'', req_tools = True, req_contents = [toolPlan, clickDone]\<rparr>
            (Response 200 [] (Json (Some toolPlan))),
          EToolStatus (str ''click''), EExec 1 (str ''click'') (VObj []) (VNum 1),
          EFetch \<lparr>req_model = str ''gemini-2.5-flash'', req_tools = True, req_contents = [toolPlan, clickDone, toolPlan, clickDone]\<rparr>
            (Response 200 [] (Json (Some toolPlan)))]\<rparr>"
  define W3 where "W3 = \<lparr>nfetch = 4, nrandom = 0, napproval = 0, ntool = 2,
        trace = [EFetch \<lparr>req_model = str ''gemini-2.5-flash'', req_tools = True, req_contents = []\<rparr>
            (Response 200 [] (Json (Some toolPlan))),
          EToolStatus (str ''click''), EExec 0 (str ''click'') (VObj []) (VNum 1),
          EFetch \<lparr>req_model = str ''gemini-2.5-flash'', req_tools = True, req_contents = [toolPlan, clickDone]\<rparr>
            (Response 200 [] (Json (Some toolPlan))),
          EToolStatus (str ''click''), EExec 1 (str ''click'') (VObj []) (VNum 1),
          EFetch \<lparr>req_model = str ''gemini-2.5-flash'', req_tools = True, req_contents = [toolPlan, clickDone, toolPlan, clickDone]\<rparr>
            (Response 200 [] (Json (Some toolPlan))),
          EStream (str ''Detected repeated tool plan; forcing a final answer without tools...''),
          EFetch \<lparr>req_model = str ''gemini-2.5-flash'', req_tools = False,
              req_contents = [toolPlan, clickDone, toolPlan, clickDone, toolPlan,
               \<lparr>role = str ''user'',
                parts = [\<lparr>ptext = Some (str ''Stop calling tools. Provide the final answer concisely based on the gathered data.''),
                          functionCall = None, functionResponse = None\<rparr>]\<rparr>]\<rparr>
            (Response 200 [] (Json (Some plainAnswer)))]\<rparr>"
  define fin where "fin = EFetch \<lparr>req_model = str ''gemini-2.5-flash'', req_tools = False,
              req_contents = [toolPlan, clickDone, toolPlan, clickDone, toolPlan,
               \<lparr>role = str ''user'',
                parts = [\<lparr>ptext = Some (str ''Stop calling tools. Provide the final answer concisely based on the gathered data.''),
                          functionCall = None, functionResponse = None\<rparr>]\<rparr>]\<rparr>
            (Response 200 [] (Json (Some plainAnswer)))"
  define c6 where "c6 = [toolPlan, clickDone, toolPlan, clickDone, toolPlan,
               \<lparr>role = str ''user'',
                parts = [\<lparr>ptext = Some (str ''Stop calling tools. Provide the final answer concisely based on the gathered data.''),
                          functionCall = None, functionResponse = None\<rparr>]\<rparr>]"
  have i0: "initialState emptyPayload (VNum 1) = S0" by (simp add: init_empty S0_def)
  have r0: "roundBody E threeSTATE FL 0 S0 world0 = (Inr S1, W1)"
    unfolding E_def FL_def S0_def S1_def W1_def by (rule plan_round0[OF auto_three])
  have r1: "roundBody E threeSTATE FL (0 + 1) S1 W1 = (Inr S2, W2)"
    unfolding E_def FL_def S1_def S2_def W1_def W2_def
    by (simp add: plan_round_again[OF auto_three chars2])
  have r1': "roundBody E threeSTATE FL 1 S1 W1 = (Inr S2, W2)" using r1 by simp
  have r2: "roundBody E threeSTATE FL (1 + 1) S2 W2 = (Inl (Answer (str ''done'') (str ''gemini-2.5-flash'')), W3)"
    unfolding E_def FL_def S2_def W2_def W3_def
    by (simp add: plan_round_forced[OF chars4, unfolded One_nat_def] repeatMessage_def stop_text)
  have r2': "roundBody E threeSTATE FL 2 S2 W2 = (Inl (Answer (str ''done'') (str ''gemini-2.5-flash'')), W3)" using r2 by simp
  have c0: "compressIfNeeded E threeSTATE (ls_contents S0) 10000 world0 = ([], world0)"
    by (simp add: S0_def compress_empty)
  have c1: "compressIfNeeded E threeSTATE (ls_contents S1) 10000 W1 = ([toolPlan, clickDone], W1)"
    by (simp add: S1_def compress_small chars2)
  have c2: "compressIfNeeded E threeSTATE (ls_contents S2) 10000 W2 = ([toolPlan, clickDone, toolPlan, clickDone], W2)"
    by (simp add: S2_def compress_small chars4)
  have m0: "modelCall E FL [] world0 = (Inr (Some toolPlan, str ''gemini-2.5-flash''), W0b)"
    unfolding E_def FL_def W0b_def by (simp add: plan_modelCall world0_def del: modelCall.simps)
  have m1: "modelCall E FL [toolPlan, clickDone] W1 = (Inr (Some toolPlan, str ''gemini-2.5-flash''), W1b)"
    unfolding E_def FL_def W1_def W1b_def by (simp add: plan_modelCall del: modelCall.simps)
  have m2: "modelCall E FL [toolPlan, clickDone, toolPlan, clickDone] W2 = (Inr (Some toolPlan, str ''gemini-2.5-flash''), W2b)"
    unfolding E_def FL_def W2_def W2b_def by (simp add: plan_modelCall del: modelCall.simps)
  have l1: "(0::int) + 1 < 3" by simp
  have l2: "(1::int) + 1 < 3" by simp
  note T1 = repeated_plan_forces_final_answer[OF l1 c0 m0 r0 c1 m1 r1 refl refl refl refl,
              unfolded E_def plan_calls plan_signature, folded E_def]
  note T2 = repeated_plan_forces_final_answer[OF l2 c1 m1 r1' c2 m2 r2 refl refl refl refl,
              unfolded E_def plan_calls plan_signature, folded E_def]
  have cl: "\<not> (\<exists>x \<in> set [clickCall]. call_name x \<in> {str ''searchWeb'', str ''getSearchResults'',
                 str ''clickSearchResultByDomain'', str ''extractText'', str ''waitForSelector''})"
    by (simp add: clickCall_def str_def)
  have n1: "repeatCount S1 = 0" "repeatCount S2 = 1" by (simp_all add: S1_def S2_def)
  have ne: "[clickCall] \<noteq> []" by simp
  have a2: "roundsLoop E threeSTATE FL 3 1 S1 W1 = (Inl (Answer (str ''done'') (str ''gemini-2.5-flash'')), W3)"
    using T2 by simp
  have a3: "roundsLoop E threeSTATE FL 3 0 S0 world0 = (Inl (Answer (str ''done'') (str ''gemini-2.5-flash'')), W3)"
    using r0 a2 by (subst roundsLoop.simps) simp
  have a4: "generateWithToolsLoop E threeSTATE emptyPayload (VNum 1) world0 = (Answer (str ''done'') (str ''gemini-2.5-flash''), W3)"
    unfolding generateWithToolsLoop_def max_three i0 fl_three FL_def[symmetric]
    using a3 by simp
  have sg: "json_stringify E [clickCall] = str ''click''" unfolding E_def by (rule plan_signature)
  have th: "repeatThreshold [clickCall] = 2" using T1 cl by simp
  have th4: "repeatThreshold [\<lparr>call_name = str ''extractText'', call_args = VObj []\<rparr>] = 4"
    by (simp add: repeatThreshold_def isLegitimateWorkflow_def workflowTools_def str_def)
  have k: "kindOf ` set (newEvents W1b W2) \<subseteq> {KApproval, KTool}"
    using T1 cl n1 ne by simp
  have nw: "newEvents W2b W3 = [EStream (str ''Detected repeated tool plan; forcing a final answer without tools...''), fin]"
    by (simp add: newEvents_def W2b_def W3_def fin_def)
  have nt: "noToolsRun FL c6 (Some (Some plainAnswer, str ''gemini-2.5-flash'')) [fin]"
    by (simp add: noToolsRun_def fin_def c6_def FL_def fetches_simps ok_def)
  show ?thesis
    using r0 r1' r2' a2 a4 sg th th4 k nw nt
    unfolding i0 E_def FL_def S0_def S1_def S2_def W1_def W1b_def W2_def W2b_def W3_def fin_def c6_def
    by blast
qed


text \<open>
  C6, as stated, fails for the statuses 503 and 504: against a backend that answers
  every request with status 503, the run ends with \<open>API error 503\<close> after four
  requests, all of them to the preferred model. The two other models of the fallback
  list are never tried.
\<close>

theorem modelCall_503_no_fallback:
  "fst (generateWithToolsLoop (statusEnv 503) initialSTATE emptyPayload (VNum 1) world0)
     = Failure (str ''API error 503: unavailable'') \<and>
   map (req_model \<circ> fst)
       (fetches (trace (snd (generateWithToolsLoop (statusEnv 503) initialSTATE emptyPayload (VNum 1) world0))))
     = [str ''gemini-2.5-flash-lite'', str ''gemini-2.5-flash-lite'',
        str ''gemini-2.5-flash-lite'', str ''gemini-2.5-flash-lite''] \<and>
   fallbackList initialSTATE
     = [str ''gemini-2.5-flash-lite'', str ''gemini-2.5-flash'', str ''gemini-1.5-flash'']"
  unfolding busy_run by (simp add: fl_init world0_def fetches_simps)

text \<open>
  C6, amended. The model call of a round sends its request to the first model of the
  list through \<open>fetchWithRetry\<close> with 2 retries and base delay 700. That makes at least
  one and at most four fetches of the same request, with at most three pauses, the
  \<open>k\<close>-th pause lasting \<open>700 * 2^k\<close> plus a jitter of at most 100; every fetch but the
  last has met a transient failure (network error, status 500, 503 or 504), and a
  transient failure is the result only after three pauses. A first result that is not a
  transient failure is returned at once, after one fetch and no pause. An ok response
  with a JSON body is the answer of the call; when the body of an ok response cannot be
  parsed the exception leaves the loop, and when it is falsy the call gives the error
  \<open>All model attempts failed\<close>. After a network error or status 500 the call goes on
  with the next model of the list. Every other status that is not ok, 503 and 504 after
  the retries included, is returned as the error \<open>API error\<close> and no other model is
  tried.
\<close>

theorem modelCall_retry_and_fallback:
  assumes "fetchWithRetry e \<lparr>req_model = mdl, req_tools = True, req_contents = cs\<rparr> 2 700 w = (r, w1)"
  shows "kindOf ` set (newEvents w w1) \<subseteq> {KFetch, KSleep} \<and>
         fetches (newEvents w w1) \<noteq> [] \<and>
         length (fetches (newEvents w w1)) \<le> 4 \<and>
         length (sleeps (newEvents w w1)) \<le> 3 \<and>
         map fst (fetches (newEvents w w1))
           = replicate (length (fetches (newEvents w w1)))
               \<lparr>req_model = mdl, req_tools = True, req_contents = cs\<rparr> \<and>
         sleeps (newEvents w w1)
           = map (\<lambda>k. 700 * 2 ^ k + random_at e (nrandom w + k) * 100)
               [0..<length (sleeps (newEvents w w1))] \<and>
         list_all transient (butlast (map snd (fetches (newEvents w w1)))) \<and>
         (transient r \<longrightarrow>
            length (sleeps (newEvents w w1)) = 3 \<and> 3 \<le> length (fetches (newEvents w w1))) \<and>
         (\<not> transient (fetch_at e (nfetch w) \<lparr>req_model = mdl, req_tools = True, req_contents = cs\<rparr>) \<longrightarrow>
            r = fetch_at e (nfetch w) \<lparr>req_model = mdl, req_tools = True, req_contents = cs\<rparr> \<and>
            newEvents w w1 = [EFetch \<lparr>req_model = mdl, req_tools = True, req_contents = cs\<rparr> r]) \<and>
         (\<forall>status tx js. r = Response status tx (Json js) \<and> ok status \<longrightarrow>
            modelCall e (mdl # rest) cs w = (Inr (js, mdl), w1)) \<and>
         (\<forall>status tx. r = Response status tx Unparsable \<and> ok status \<longrightarrow>
            modelCall e (mdl # rest) cs w = (Inl Threw, w1)) \<and>
         (\<forall>status tx b. r = Response status tx b \<and> ok status \<and> (b = JNull \<or> b = JFalsy) \<longrightarrow>
            modelCall e (mdl # rest) cs w
              = (Inl (Failure (str ''All model attempts failed (500 or network). Please retry shortly.'')), w1)) \<and>
         (\<forall>status tx js. r = Response status tx js \<and> \<not> ok status \<and> status \<noteq> 500 \<longrightarrow>
            modelCall e (mdl # rest) cs w
              = (Inl (Failure (str ''API error '' @ digits status @ str '': '' @ tx)), w1)) \<and>
         (\<forall>tx js. r = Response 500 tx js \<longrightarrow>
            modelCall e (mdl # rest) cs w
              = modelCall e rest cs
                  (stream (str ''Model '' @ mdl
                     @ str '' returned 500 INTERNAL; retrying with a fallback model...'') w1)) \<and>
         (r = NetworkError \<longrightarrow>
            modelCall e (mdl # rest) cs w
              = modelCall e rest cs
                  (stream (str ''Network error on '' @ mdl @ str ''; trying a fallback model...'') w1))"
proof -
  define rq where "rq = \<lparr>req_model = mdl, req_tools = True, req_contents = cs\<rparr>"
  define evs where "evs = newEvents w w1"
  have fw: "fetchWithRetry e rq 2 700 w = (r, w1)" using assms by (simp add: rq_def)
  have rr: "retryRun e rq 2 700 0 False w r evs"
    unfolding evs_def using fetchWithRetry_run[OF fw] by (rule conjunct2)
  have A: "kindOf ` set evs \<subseteq> {KFetch, KSleep}" using rr by (rule retryRun_kinds)
  have B: "fetches evs \<noteq> []" unfolding evs_def using fw by (rule fetchWithRetry_some)
  have bd: "length (sleeps evs) \<le> 2 + 1 - 0 \<and> length (fetches evs) \<le> length (sleeps evs) + 1"
    using rr by (rule retryRun_bounds)
  have C: "length (fetches evs) \<le> 4" "length (sleeps evs) \<le> 3" using bd by simp_all
  have D: "map fst (fetches evs) = replicate (length (fetches evs)) rq"
    using rr by (rule retryRun_requests)
  have E: "sleeps evs = map (\<lambda>k. 700 * 2 ^ k + random_at e (nrandom w + k) * 100) [0..<length (sleeps evs)]"
    using retryRun_sleeps[OF rr] by simp
  have F: "list_all transient (butlast (map snd (fetches evs)))" using rr by (rule retryRun_butlast)
  have G: "transient r \<longrightarrow> length (sleeps evs) = 3 \<and> 3 \<le> length (fetches evs)"
  proof
    assume "transient r"
    with rr have "length (sleeps evs) = 2 + 1 - 0 \<and> length (sleeps evs) \<le> length (fetches evs)"
      by (rule retryRun_transient) simp
    then show "length (sleeps evs) = 3 \<and> 3 \<le> length (fetches evs)" by simp
  qed
  have H: "\<not> transient (fetch_at e (nfetch w) rq) \<longrightarrow>
             r = fetch_at e (nfetch w) rq \<and> evs = [EFetch rq r]"
  proof
    assume "\<not> transient (fetch_at e (nfetch w) rq)"
    then have "fetch e rq w = (r, w1)" using fw by (simp add: fetchWithRetry_not_retried)
    from fetch_new[OF this] show "r = fetch_at e (nfetch w) rq \<and> evs = [EFetch rq r]"
      by (simp add: evs_def)
  qed
  have I: "\<forall>status tx js. r = Response status tx (Json js) \<and> ok status \<longrightarrow>
            modelCall e (mdl # rest) cs w = (Inr (js, mdl), w1)"
    using assms by simp
  have I2: "\<forall>status tx. r = Response status tx Unparsable \<and> ok status \<longrightarrow>
            modelCall e (mdl # rest) cs w = (Inl Threw, w1)"
    using assms by simp
  have I3: "\<forall>status tx b. r = Response status tx b \<and> ok status \<and> (b = JNull \<or> b = JFalsy) \<longrightarrow>
            modelCall e (mdl # rest) cs w
              = (Inl (Failure (str ''All model attempts failed (500 or network). Please retry shortly.'')), w1)"
    using assms by (auto simp: allFailedMessage_def)
  have J: "\<forall>status tx js. r = Response status tx js \<and> \<not> ok status \<and> status \<noteq> 500 \<longrightarrow>
            modelCall e (mdl # rest) cs w
              = (Inl (Failure (str ''API error '' @ digits status @ str '': '' @ tx)), w1)"
    using assms by simp
  have K: "\<forall>tx js. r = Response 500 tx js \<longrightarrow>
            modelCall e (mdl # rest) cs w
              = modelCall e rest cs
                  (stream (str ''Model '' @ mdl
                     @ str '' returned 500 INTERNAL; retrying with a fallback model...'') w1)"
    using assms by (simp add: ok_def)
  have L: "r = NetworkError \<longrightarrow>
            modelCall e (mdl # rest) cs w
              = modelCall e rest cs
                  (stream (str ''Network error on '' @ mdl @ str ''; trying a fallback model...'') w1)"
    using assms by simp
  show ?thesis
    using A B C D E F G H I I2 I3 J K L unfolding evs_def rq_def by blast
qed

text \<open>
  C6, amended, at seven backends: status 503 (three pauses of 700, 1400 and 2800, four
  fetches, then \<open>API error 503\<close>), status 401 (one fetch, then \<open>API error 401\<close>),
  status 500 and a network that is down (the call goes on with the next model), a
  backend that answers (its candidate is the result), and backends whose ok response
  has a body that cannot be parsed (the exception) or is \<open>null\<close> (the error, after one
  fetch).
\<close>

theorem modelCall_retry_and_fallback_witness:
  "(transient (fst (fetchWithRetry (statusEnv 503)
        \<lparr>req_model = str ''gemini-2.5-flash-lite'', req_tools = True, req_contents = []\<rparr> 2 700 world0)) \<and>
    sleeps (trace (snd (fetchWithRetry (statusEnv 503)
        \<lparr>req_model = str ''gemini-2.5-flash-lite'', req_tools = True, req_contents = []\<rparr> 2 700 world0)))
      = [700, 1400, 2800] \<and>
    length (fetches (trace (snd (fetchWithRetry (statusEnv 503)
        \<lparr>req_model = str ''gemini-2.5-flash-lite'', req_tools = True, req_contents = []\<rparr> 2 700 world0)))) = 4 \<and>
    fst (modelCall (statusEnv 503) [str ''gemini-2.5-flash-lite'', str ''gemini-2.5-flash''] [] world0)
      = Inl (Failure (str ''API error 503: unavailable''))) \<and>
   (\<not> transient (fetch_at (statusEnv 401) (nfetch world0)
        \<lparr>req_model = str ''gemini-2.5-flash-lite'', req_tools = True, req_contents = []\<rparr>) \<and>
    trace (snd (fetchWithRetry (statusEnv 401)
        \<lparr>req_model = str ''gemini-2.5-flash-lite'', req_tools = True, req_contents = []\<rparr> 2 700 world0))
      = [EFetch \<lparr>req_model = str ''gemini-2.5-flash-lite'', req_tools = True, req_contents = []\<rparr>
           (Response 401 (str ''unavailable'') (Json None))] \<and>
    fst (modelCall (statusEnv 401) [str ''gemini-2.5-flash-lite'', str ''gemini-2.5-flash''] [] world0)
      = Inl (Failure (str ''API error 401: unavailable''))) \<and>
   (fst (fetchWithRetry (statusEnv 500)
        \<lparr>req_model = str ''gemini-2.5-flash-lite'', req_tools = True, req_contents = []\<rparr> 2 700 world0)
      = Response 500 (str ''unavailable'') (Json None) \<and>
    modelCall (statusEnv 500) [str ''gemini-2.5-flash-lite'', str ''gemini-2.5-flash''] [] world0
      = modelCall (statusEnv 500) [str ''gemini-2.5-flash''] []
          (stream (str ''Model '' @ str ''gemini-2.5-flash-lite''
                     @ str '' returned 500 INTERNAL; retrying with a fallback model...'')
             (snd (fetchWithRetry (statusEnv 500)
                \<lparr>req_model = str ''gemini-2.5-flash-lite'', req_tools = True, req_contents = []\<rparr>
                2 700 world0)))) \<and>
   (fst (fetchWithRetry offlineEnv
        \<lparr>req_model = str ''gemini-2.5-flash-lite'', req_tools = True, req_contents = []\<rparr> 2 700 world0)
      = NetworkError \<and>
    modelCall offlineEnv [str ''gemini-2.5-flash-lite'', str ''gemini-2.5-flash''] [] world0
      = modelCall offlineEnv [str ''gemini-2.5-flash''] []
          (stream (str ''Network error on '' @ str ''gemini-2.5-flash-lite''
                     @ str ''; trying a fallback model...'')
             (snd (fetchWithRetry offlineEnv
                \<lparr>req_model = str ''gemini-2.5-flash-lite'', req_tools = True, req_contents = []\<rparr>
                2 700 world0)))) \<and>
   (ok 200 \<and>
    fst (modelCall (planEnv NetworkError) [str ''gemini-2.5-flash-lite'', str ''gemini-2.5-flash''] [] world0)
      = Inr (Some toolPlan, str ''gemini-2.5-flash-lite'')) \<and>
   (fst (modelCall (bodyEnv Unparsable) [str ''gemini-2.5-flash-lite'', str ''gemini-2.5-flash''] [] world0)
      = Inl Threw \<and>
    fst (modelCall (bodyEnv JNull) [str ''gemini-2.5-flash-lite'', str ''gemini-2.5-flash''] [] world0)
      = Inl (Failure (str ''All model attempts failed (500 or network). Please retry shortly.'')) \<and>
    length (fetches (trace (snd (modelCall (bodyEnv JNull)
        [str ''gemini-2.5-flash-lite'', str ''gemini-2.5-flash''] [] world0)))) = 1)"
proof -
  define rq where "rq = \<lparr>req_model = str ''gemini-2.5-flash-lite'', req_tools = True, req_contents = []\<rparr>"
  define rest where "rest = [str ''gemini-2.5-flash'']"
  note T = modelCall_retry_and_fallback[where mdl = "str ''gemini-2.5-flash-lite''" and cs = "[]"
             and w = world0 and rest = rest, folded rq_def, OF collapse]
  have a: "transient (fst (fetchWithRetry (statusEnv 503) rq 2 700 world0)) \<and>
           sleeps (trace (snd (fetchWithRetry (statusEnv 503) rq 2 700 world0))) = [700, 1400, 2800] \<and>
           length (fetches (trace (snd (fetchWithRetry (statusEnv 503) rq 2 700 world0)))) = 4 \<and>
           fst (modelCall (statusEnv 503) (str ''gemini-2.5-flash-lite'' # rest) [] world0)
             = Inl (Failure (str ''API error 503: unavailable''))"
    using T[where e = "statusEnv 503"]
    by (simp add: status_fetch_transient world0_def sleeps_simps fetches_simps ok_def digits_503)
       (simp add: str_def)
  have b: "\<not> transient (fetch_at (statusEnv 401) (nfetch world0) rq) \<and>
           trace (snd (fetchWithRetry (statusEnv 401) rq 2 700 world0))
             = [EFetch rq (Response 401 (str ''unavailable'') (Json None))] \<and>
           fst (modelCall (statusEnv 401) (str ''gemini-2.5-flash-lite'' # rest) [] world0)
             = Inl (Failure (str ''API error 401: unavailable''))"
  proof -
    have b0: "\<not> transient (fetch_at (statusEnv 401) (nfetch world0) rq)"
      by (simp add: statusEnv_def)
    show ?thesis
      using T[where e = "statusEnv 401"] b0
      by (simp add: status_fetch_401 world0_def ok_def digits_401 del: modelCall.simps)
         (simp add: status_fetch_401 ok_def digits_401 str_def rq_def)
  qed
  have c: "fst (fetchWithRetry (statusEnv 500) rq 2 700 world0) = Response 500 (str ''unavailable'') (Json None) \<and>
           modelCall (statusEnv 500) (str ''gemini-2.5-flash-lite'' # rest) [] world0
             = modelCall (statusEnv 500) rest []
                 (stream (str ''Model '' @ str ''gemini-2.5-flash-lite''
                     @ str '' returned 500 INTERNAL; retrying with a fallback model...'')
                   (snd (fetchWithRetry (statusEnv 500) rq 2 700 world0)))"
    using T[where e = "statusEnv 500"]
    by (simp add: status_fetch_transient del: modelCall.simps)
  have d: "fst (fetchWithRetry offlineEnv rq 2 700 world0) = NetworkError \<and>
           modelCall offlineEnv (str ''gemini-2.5-flash-lite'' # rest) [] world0
             = modelCall offlineEnv rest []
                 (stream (str ''Network error on '' @ str ''gemini-2.5-flash-lite''
                     @ str ''; trying a fallback model...'')
                   (snd (fetchWithRetry offlineEnv rq 2 700 world0)))"
    using T[where e = offlineEnv]
    by (simp add: offline_fetch del: modelCall.simps)
  have e: "ok 200 \<and>
           fst (modelCall (planEnv NetworkError) (str ''gemini-2.5-flash-lite'' # rest) [] world0)
             = Inr (Some toolPlan, str ''gemini-2.5-flash-lite'')"
    using T[where e = "planEnv NetworkError"]
    by (simp add: plan_fetch_tools rq_def ok_def del: modelCall.simps)
  have f1: "fst (modelCall (bodyEnv Unparsable) (str ''gemini-2.5-flash-lite'' # rest) [] world0) = Inl Threw"
    using T[where e = "bodyEnv Unparsable"]
    by (simp add: body_fetch_any rq_def ok_def del: modelCall.simps)
  have f2: "fst (modelCall (bodyEnv JNull) (str ''gemini-2.5-flash-lite'' # rest) [] world0)
      = Inl (Failure (str ''All model attempts failed (500 or network). Please retry shortly.''))"
    using T[where e = "bodyEnv JNull"]
    by (simp add: body_fetch_any rq_def ok_def del: modelCall.simps)
  have f3: "length (fetches (trace (snd (modelCall (bodyEnv JNull)
        (str ''gemini-2.5-flash-lite'' # rest) [] world0)))) = 1"
    by (simp add: body_fetch_any ok_def world0_def fetches_simps)
  show ?thesis using a b c d e f1 f2 f3 unfolding rq_def rest_def by blast
qed




end
